theory Spec2Isabelle
  imports Complex_Main
begin

section \<open>The printf conversions used for the file name\<close>

text \<open>
  The example formats the name of every PGM file with
  \<^verbatim>\<open>snprintf(fileName, sizeof(fileName), "image%03d_%d.pgm", i, imgNum)\<close>
  where \<^verbatim>\<open>fileName\<close> is a \<^verbatim>\<open>char[100]\<close>, \<^verbatim>\<open>i\<close> is the index of the
  sub-image and \<^verbatim>\<open>imgNum\<close> the number of the image set. Both arguments are C
  \<^verbatim>\<open>int\<close>s; they are modelled as HOL integers, and the theorems that depend on the
  range of the type state it.
\<close>

definition digit_char :: "nat \<Rightarrow> char" where
  "digit_char d = char_of (48 + d)"

function dec_digits :: "nat \<Rightarrow> string" where
  "dec_digits n =
     (if n < 10 then [digit_char n]
      else dec_digits (n div 10) @ [digit_char (n mod 10)])"
  by pat_completeness auto
termination
  by (relation "measure id") auto

declare dec_digits.simps [simp del]

definition zero_pad :: "nat \<Rightarrow> string \<Rightarrow> string" where
  "zero_pad w s = replicate (w - length s) (CHR ''0'') @ s"

text \<open>\<^verbatim>\<open>%d\<close>: a minus sign for a negative value, then the decimal digits.\<close>

definition conv_d :: "int \<Rightarrow> string" where
  "conv_d x =
     (if x < 0 then CHR ''-'' # dec_digits (nat (- x)) else dec_digits (nat x))"

text \<open>
  \<^verbatim>\<open>%03d\<close>: as \<^verbatim>\<open>%d\<close>, padded with zeros after the sign to a minimum field
  width of three characters; a longer number is not cut.
\<close>

definition conv_03d :: "int \<Rightarrow> string" where
  "conv_03d x =
     (if x < 0 then CHR ''-'' # zero_pad 2 (dec_digits (nat (- x)))
      else zero_pad 3 (dec_digits (nat x)))"

text \<open>The text that the format string \<^verbatim>\<open>"image%03d_%d.pgm"\<close> produces for two arguments.\<close>

definition format_image :: "int \<Rightarrow> int \<Rightarrow> string" where
  "format_image a b = ''image'' @ conv_03d a @ ''_'' @ conv_d b @ ''.pgm''"

text \<open>
  \<^verbatim>\<open>snprintf(buf, n, ...)\<close> stores at most \<open>n - 1\<close> characters followed by a NUL
  byte and returns the length the complete text would have had. The model returns the
  bytes stored in the buffer and the return value.
\<close>

definition snprintf :: "nat \<Rightarrow> string \<Rightarrow> string \<times> int" where
  "snprintf n s =
     (if n = 0 then [] else take (n - 1) s @ [CHR 0x00], int (length s))"

text \<open>A buffer read as a C string: the characters before the first NUL byte.\<close>

definition c_str :: "string \<Rightarrow> string" where
  "c_str buf = takeWhile (\<lambda>c. c \<noteq> CHR 0x00) buf"

text \<open>
  The buffer \<^verbatim>\<open>fileName\<close> after the call in the loop body (the arguments are passed
  in the order of the source: the sub-image index first, the set number second), and
  the name that \<^verbatim>\<open>writePgmFile\<close> reads from it.
\<close>

definition fileName :: "int \<Rightarrow> int \<Rightarrow> string" where
  "fileName i imgNum = fst (snprintf 100 (format_image i imgNum))"

definition pgm_name :: "int \<Rightarrow> int \<Rightarrow> string" where
  "pgm_name i imgNum = c_str (fileName i imgNum)"

section \<open>The library and the outside world\<close>

text \<open>
  The classes \<^verbatim>\<open>DeviceEnumeration\<close>, \<^verbatim>\<open>DeviceInfo\<close>, \<^verbatim>\<open>AsyncTransfer\<close> and
  \<^verbatim>\<open>ImageSet\<close> belong to the library \<^verbatim>\<open>visiontransfer\<close>; the example only calls
  them. What a call returns or throws is therefore an input of the model.

  The handler of \<^verbatim>\<open>main\<close> is \<^verbatim>\<open>catch(const std::exception& ex)\<close>: it selects by type.
  A thrown object is either derived from \<^verbatim>\<open>std::exception\<close>, and then has a message
  \<^verbatim>\<open>what()\<close>, or it is not.
\<close>

datatype exn = StdException (what: string) | OtherException

datatype DeviceInfo = DeviceInfo (toString: string)

text \<open>
  An image set as the example uses it: the number of images it holds, and for each call
  \<^verbatim>\<open>writePgmFile(i, fileName)\<close> whether the call throws.
\<close>

record ImageSet =
  getNumberOfImages :: int
  writePgmFile :: "int \<Rightarrow> string \<Rightarrow> exn option"

text \<open>
  One call of \<^verbatim>\<open>collectReceivedImageSet(imageSet, 0.1)\<close> returns true and fills
  \<^verbatim>\<open>imageSet\<close>, returns false after the timeout, or throws.
\<close>

datatype reception = Received ImageSet | TimedOut | ReceiveThrows exn

text \<open>
  The world of one run: what \<^verbatim>\<open>deviceEnum.discoverDevices()\<close> returns or throws,
  whether the constructor \<^verbatim>\<open>AsyncTransfer(devices[0])\<close> throws, and the results of
  the successive calls of \<^verbatim>\<open>collectReceivedImageSet\<close>. After the end of that list
  every further call times out. (A run consumes only finitely many results unless from
  some call on all of them are timeouts, so this covers every infinite sequence of
  results.)
\<close>

record world =
  discoverDevices :: "exn + DeviceInfo list"
  AsyncTransfer :: "DeviceInfo \<Rightarrow> exn option"
  collectReceivedImageSet :: "reception list"

text \<open>
  The trace of a run: the lines written to the two streams (each statement of the
  example ends its line with \<^verbatim>\<open>std::endl\<close>) and the calls into the library, each
  with its result. The second argument of \<open>CollectReceivedImageSet\<close> is the timeout;
  its result is the exception thrown, or \<open>None\<close> for false and \<open>Some s\<close> for true
  with the image set stored in the reference argument.
\<close>

datatype event =
    DiscoverDevices "exn option"
  | Cout string
  | Cerr string
  | NewAsyncTransfer DeviceInfo "exn option"
  | CollectReceivedImageSet rat "exn + ImageSet option"
  | WritePgmFile int string "exn option"

text \<open>How a block of statements ends: normally, by a thrown exception, or never.\<close>

datatype 'a flow = Normal 'a | Raise exn | Blocked

section \<open>The example program\<close>

text \<open>
  The \<^verbatim>\<open>while\<close> loop that polls until a reception succeeds. It returns how the loop
  ended, the results left for later calls, and the events.
\<close>

fun receive :: "reception list \<Rightarrow> ImageSet flow \<times> reception list \<times> event list" where
  "receive [] = (Blocked, [], [])"
| "receive (TimedOut # rs) =
     (case receive rs of
        (r, rs', evs) \<Rightarrow> (r, rs', CollectReceivedImageSet (1 / 10) (Inr None) # evs))"
| "receive (Received s # rs) =
     (Normal s, rs, [CollectReceivedImageSet (1 / 10) (Inr (Some s))])"
| "receive (ReceiveThrows e # rs) =
     (Raise e, rs, [CollectReceivedImageSet (1 / 10) (Inl e)])"

text \<open>The inner \<^verbatim>\<open>for\<close> loop over the images of a set, from index \<open>i\<close> on.\<close>

function write_images :: "ImageSet \<Rightarrow> int \<Rightarrow> int \<Rightarrow> unit flow \<times> event list" where
  "write_images imageSet imgNum i =
     (if i < getNumberOfImages imageSet then
        (case writePgmFile imageSet i (pgm_name i imgNum) of
           Some e \<Rightarrow> (Raise e, [WritePgmFile i (pgm_name i imgNum) (Some e)])
         | None \<Rightarrow>
             (case write_images imageSet imgNum (i + 1) of
                (r, evs) \<Rightarrow> (r, WritePgmFile i (pgm_name i imgNum) None # evs)))
      else (Normal (), []))"
  by pat_completeness auto
termination
  by (relation "measure (\<lambda>(s, n, i). nat (getNumberOfImages s - i))") auto

declare write_images.simps [simp del]

text \<open>The outer \<^verbatim>\<open>for\<close> loop over the set numbers, from \<open>imgNum\<close> on.\<close>

function receive_images :: "reception list \<Rightarrow> int \<Rightarrow> unit flow \<times> event list" where
  "receive_images rs imgNum =
     (if imgNum < 100 then
        (case receive rs of
           (Blocked, rs', evs) \<Rightarrow>
             (Blocked, Cout (''Receiving image set '' @ conv_d imgNum) # evs)
         | (Raise e, rs', evs) \<Rightarrow>
             (Raise e, Cout (''Receiving image set '' @ conv_d imgNum) # evs)
         | (Normal imageSet, rs', evs) \<Rightarrow>
             (case write_images imageSet imgNum 0 of
                (Normal u, wevs) \<Rightarrow>
                  (case receive_images rs' (imgNum + 1) of
                     (r, evs') \<Rightarrow>
                       (r, Cout (''Receiving image set '' @ conv_d imgNum) # evs @ wevs @ evs'))
              | (Raise e, wevs) \<Rightarrow>
                  (Raise e, Cout (''Receiving image set '' @ conv_d imgNum) # evs @ wevs)
              | (Blocked, wevs) \<Rightarrow>
                  (Blocked, Cout (''Receiving image set '' @ conv_d imgNum) # evs @ wevs)))
      else (Normal (), []))"
  by pat_completeness auto
termination
  by (relation "measure (\<lambda>(rs, n). nat (100 - n))") auto

declare receive_images.simps [simp del]

text \<open>
  The events of the \<^verbatim>\<open>try\<close> block before the reception loop, once at least one
  device was found: the enumeration, the printed list of devices with the empty line
  after it, and the construction of the transfer object for \<^verbatim>\<open>devices[0]\<close> with its
  result.
\<close>

definition header :: "DeviceInfo list \<Rightarrow> exn option \<Rightarrow> event list" where
  "header devices r =
     [DiscoverDevices None, Cout ''Discovered devices:'']
     @ map (\<lambda>d. Cout (toString d)) devices
     @ [Cout [], NewAsyncTransfer (devices ! 0) r]"

text \<open>
  The body of the \<^verbatim>\<open>try\<close> block. \<open>Normal (Some c)\<close> is the statement
  \<^verbatim>\<open>return c\<close> inside the block, \<open>Normal None\<close> the end of the block.
\<close>

definition try_block :: "world \<Rightarrow> int option flow \<times> event list" where
  "try_block w =
     (case discoverDevices w of
        Inl e \<Rightarrow> (Raise e, [DiscoverDevices (Some e)])
      | Inr devices \<Rightarrow>
          if length devices = 0 then
            (Normal (Some (- 1)), [DiscoverDevices None, Cout ''No devices discovered!''])
          else
            (case AsyncTransfer w (devices ! 0) of
               Some e \<Rightarrow> (Raise e, header devices (Some e))
             | None \<Rightarrow>
                 (case receive_images (collectReceivedImageSet w) 0 of
                    (Normal u, evs) \<Rightarrow> (Normal None, header devices None @ evs)
                  | (Raise e, evs) \<Rightarrow> (Raise e, header devices None @ evs)
                  | (Blocked, evs) \<Rightarrow> (Blocked, header devices None @ evs))))"

text \<open>
  How a run of \<^verbatim>\<open>main\<close> ends: it returns an exit code, an exception leaves it, or it
  polls for ever.
\<close>

datatype outcome = Returned int | Uncaught exn | PollsForever

text \<open>
  \<^verbatim>\<open>main\<close>: the \<^verbatim>\<open>try\<close> block, the handler for \<^verbatim>\<open>std::exception\<close>, and the final
  \<^verbatim>\<open>return 0\<close>.
\<close>

definition main :: "world \<Rightarrow> outcome \<times> event list" where
  "main w =
     (case try_block w of
        (Normal (Some c), evs) \<Rightarrow> (Returned c, evs)
      | (Normal None, evs) \<Rightarrow> (Returned 0, evs)
      | (Raise (StdException m), evs) \<Rightarrow>
          (Returned 0, evs @ [Cerr (''Exception occurred: '' @ m)])
      | (Raise OtherException, evs) \<Rightarrow> (Uncaught OtherException, evs)
      | (Blocked, evs) \<Rightarrow> (PollsForever, evs))"

section \<open>Notions used to state and prove the properties\<close>

text \<open>Reading decimal digits back, to show that the conversions lose nothing.\<close>

definition digit_val :: "char \<Rightarrow> nat" where
  "digit_val c = of_char c - 48"

definition dec_value :: "string \<Rightarrow> nat" where
  "dec_value s = foldl (\<lambda>a c. 10 * a + digit_val c) 0 s"

definition is_digit :: "char \<Rightarrow> bool" where
  "is_digit c = (48 \<le> (of_char c :: nat) \<and> (of_char c :: nat) \<le> 57)"

text \<open>The exception with which the call recorded by an event ended, if it threw.\<close>

fun raised :: "event \<Rightarrow> exn option" where
  "raised (DiscoverDevices r) = r"
| "raised (Cout s) = None"
| "raised (Cerr s) = None"
| "raised (NewAsyncTransfer d r) = r"
| "raised (CollectReceivedImageSet t r) = (case r of Inl e \<Rightarrow> Some e | Inr b \<Rightarrow> None)"
| "raised (WritePgmFile i f r) = r"

text \<open>
  Kinds of events: a call of \<^verbatim>\<open>collectReceivedImageSet\<close> that returned true, a call of
  \<^verbatim>\<open>writePgmFile\<close>, any call of \<^verbatim>\<open>collectReceivedImageSet\<close>.
\<close>

fun is_received :: "event \<Rightarrow> bool" where
  "is_received (CollectReceivedImageSet t (Inr (Some s))) = True"
| "is_received ev = False"

fun is_write :: "event \<Rightarrow> bool" where
  "is_write (WritePgmFile i f r) = True"
| "is_write ev = False"

fun is_collect :: "event \<Rightarrow> bool" where
  "is_collect (CollectReceivedImageSet t r) = True"
| "is_collect ev = False"

text \<open>The lines written to standard output, in order.\<close>

definition couts :: "event list \<Rightarrow> string list" where
  "couts evs = concat (map (\<lambda>ev. case ev of Cout s \<Rightarrow> [s] | _ \<Rightarrow> []) evs)"

text \<open>
  A block that ends by an exception has thrown it in its last call, and no earlier call
  threw; a block that ends otherwise has no throwing call.
\<close>

definition ends_as :: "'a flow \<Rightarrow> event list \<Rightarrow> bool" where
  "ends_as r evs =
     (case r of
        Raise e \<Rightarrow> evs \<noteq> [] \<and> raised (last evs) = Some e \<and> (\<forall>ev \<in> set (butlast evs). raised ev = None)
      | _ \<Rightarrow> (\<forall>ev \<in> set evs. raised ev = None))"

text \<open>A line on standard error.\<close>

fun is_cerr :: "event \<Rightarrow> bool" where
  "is_cerr (Cerr m) = True"
| "is_cerr ev = False"

text \<open>
  The call \<^verbatim>\<open>imageSet.writePgmFile(i, fileName)\<close> of the loop body for the set number
  \<open>n\<close> and the index \<open>i\<close>, with its result.
\<close>

definition write_call :: "ImageSet \<Rightarrow> int \<Rightarrow> int \<Rightarrow> event" where
  "write_call s n i = WritePgmFile i (pgm_name i n) (writePgmFile s i (pgm_name i n))"





text \<open>
  The results of the calls of \<^verbatim>\<open>collectReceivedImageSet\<close> recorded in a trace, in the
  order of the calls, and the image sets that the successful calls stored.
\<close>

fun polled :: "event list \<Rightarrow> reception list" where
  "polled [] = []"
| "polled (CollectReceivedImageSet t (Inr None) # evs) = TimedOut # polled evs"
| "polled (CollectReceivedImageSet t (Inr (Some s)) # evs) = Received s # polled evs"
| "polled (CollectReceivedImageSet t (Inl e) # evs) = ReceiveThrows e # polled evs"
| "polled (ev # evs) = polled evs"

fun received_in :: "event list \<Rightarrow> ImageSet list" where
  "received_in [] = []"
| "received_in (CollectReceivedImageSet t (Inr (Some s)) # evs) = s # received_in evs"
| "received_in (ev # evs) = received_in evs"

text \<open>
  The image sets that the world delivers, in order, before any call of
  \<^verbatim>\<open>collectReceivedImageSet\<close> throws; timeouts in between only delay them.
\<close>

fun delivered :: "reception list \<Rightarrow> ImageSet list" where
  "delivered [] = []"
| "delivered (TimedOut # rs) = delivered rs"
| "delivered (Received s # rs) = s # delivered rs"
| "delivered (ReceiveThrows e # rs) = []"

text \<open>
  A line on standard output, and the rule of the reception loop that such a line is
  directly followed by a poll.
\<close>

fun is_cout :: "event \<Rightarrow> bool" where
  "is_cout (Cout x) = True"
| "is_cout ev = False"


text \<open>The file names passed to \<^verbatim>\<open>writePgmFile\<close>, in order.\<close>

fun written_names :: "event list \<Rightarrow> string list" where
  "written_names [] = []"
| "written_names (WritePgmFile i f r # evs) = f # written_names evs"
| "written_names (ev # evs) = written_names evs"

section \<open>Concrete image sets and worlds\<close>

text \<open>
  Image sets and worlds used as concrete inputs: sets with one or two images whose
  writes succeed, and sets with two images where the call for one index throws.
\<close>

definition two_images :: ImageSet where
  "two_images = \<lparr>getNumberOfImages = 2, writePgmFile = (\<lambda>i f. None)\<rparr>"

definition one_image :: ImageSet where
  "one_image = \<lparr>getNumberOfImages = 1, writePgmFile = (\<lambda>i f. None)\<rparr>"

definition second_write_fails :: ImageSet where
  "second_write_fails =
     \<lparr>getNumberOfImages = 2,
      writePgmFile = (\<lambda>i f. if i = 1 then Some (StdException ''Illegal pixel format!'') else None)\<rparr>"

definition first_write_fails :: ImageSet where
  "first_write_fails =
     \<lparr>getNumberOfImages = 2,
      writePgmFile = (\<lambda>i f. if i = 0 then Some (StdException ''Illegal pixel format!'') else None)\<rparr>"

text \<open>No device answers the enumeration.\<close>

definition no_devices_world :: world where
  "no_devices_world =
     \<lparr>discoverDevices = Inr [], AsyncTransfer = (\<lambda>d. None),
      collectReceivedImageSet = [Received two_images]\<rparr>"

text \<open>The enumeration throws an object that is not a \<^verbatim>\<open>std::exception\<close>.\<close>

definition foreign_exception_world :: world where
  "foreign_exception_world =
     \<lparr>discoverDevices = Inl OtherException, AsyncTransfer = (\<lambda>d. None),
      collectReceivedImageSet = []\<rparr>"

text \<open>One device; one set of two images arrives, then nothing more.\<close>

definition one_set_world :: world where
  "one_set_world =
     \<lparr>discoverDevices = Inr [DeviceInfo ''192.168.10.10''], AsyncTransfer = (\<lambda>d. None),
      collectReceivedImageSet = [Received two_images]\<rparr>"

text \<open>One device; two sets of one image each arrive, then nothing more.\<close>

definition two_sets_world :: world where
  "two_sets_world =
     \<lparr>discoverDevices = Inr [DeviceInfo ''192.168.10.10''], AsyncTransfer = (\<lambda>d. None),
      collectReceivedImageSet = [Received one_image, Received one_image]\<rparr>"

text \<open>
  One device; the first poll times out, the second delivers a set of two images, and
  writing the second image throws.
\<close>

definition failing_write_world :: world where
  "failing_write_world =
     \<lparr>discoverDevices = Inr [DeviceInfo ''192.168.10.10''], AsyncTransfer = (\<lambda>d. None),
      collectReceivedImageSet = [TimedOut, Received second_write_fails]\<rparr>"

text \<open>One device; a set of two images arrives and writing its first image throws.\<close>

definition first_write_fails_world :: world where
  "first_write_fails_world =
     \<lparr>discoverDevices = Inr [DeviceInfo ''192.168.10.10''], AsyncTransfer = (\<lambda>d. None),
      collectReceivedImageSet = [Received first_write_fails]\<rparr>"

text \<open>
  One device; the first poll times out, then two sets of one image each arrive, then
  nothing more.
\<close>

definition retry_world :: world where
  "retry_world =
     \<lparr>discoverDevices = Inr [DeviceInfo ''192.168.10.10''], AsyncTransfer = (\<lambda>d. None),
      collectReceivedImageSet = [TimedOut, Received one_image, Received one_image]\<rparr>"

text \<open>
  One device; the first poll throws an object that is not a \<^verbatim>\<open>std::exception\<close>.
\<close>

definition foreign_reception_world :: world where
  "foreign_reception_world =
     \<lparr>discoverDevices = Inr [DeviceInfo ''192.168.10.10''], AsyncTransfer = (\<lambda>d. None),
      collectReceivedImageSet = [ReceiveThrows OtherException]\<rparr>"

text \<open>
  One device; a hundred sets of two images arrive, each one after a poll that timed out.
\<close>

definition hundred_retried_sets_world :: world where
  "hundred_retried_sets_world =
     \<lparr>discoverDevices = Inr [DeviceInfo ''192.168.10.10''], AsyncTransfer = (\<lambda>d. None),
      collectReceivedImageSet = concat (replicate 100 [TimedOut, Received two_images])\<rparr>"

section \<open>Properties of the file name\<close>

lemma dec_digits_small: "n < 10 \<Longrightarrow> dec_digits n = [digit_char n]"
  by (subst dec_digits.simps) simp

lemma dec_digits_large:
  "\<not> n < 10 \<Longrightarrow> dec_digits n = dec_digits (n div 10) @ [digit_char (n mod 10)]"
  by (subst dec_digits.simps) simp

lemma digit_val_digit_char: "d < 10 \<Longrightarrow> digit_val (digit_char d) = d"
  by (simp add: digit_val_def digit_char_def)

lemma dec_value_snoc: "dec_value (s @ [c]) = 10 * dec_value s + digit_val c"
  by (simp add: dec_value_def)

lemma dec_value_dec_digits: "dec_value (dec_digits n) = n"
proof (induction n rule: dec_digits.induct)
  case (1 n)
  show ?case
  proof (cases "n < 10")
    case True
    then show ?thesis
      by (simp add: dec_digits_small dec_value_def digit_val_digit_char)
  next
    case False
    with 1 have "dec_value (dec_digits (n div 10)) = n div 10" by simp
    with False show ?thesis
      by (simp add: dec_digits_large dec_value_snoc digit_val_digit_char)
  qed
qed

lemma digit_val_zero: "digit_val (CHR ''0'') = 0"
  by (simp add: digit_val_def)

lemma dec_value_zeros: "dec_value (replicate k (CHR ''0'') @ s) = dec_value s"
  by (induction k) (simp_all add: dec_value_def digit_val_zero)

lemma dec_value_zero_pad: "dec_value (zero_pad w (dec_digits n)) = n"
  by (simp add: zero_pad_def dec_value_zeros dec_value_dec_digits)

lemma conv_d_nonneg: "0 \<le> x \<Longrightarrow> conv_d x = dec_digits (nat x)"
  by (simp add: conv_d_def)

lemma conv_03d_nonneg: "0 \<le> x \<Longrightarrow> conv_03d x = zero_pad 3 (dec_digits (nat x))"
  by (simp add: conv_03d_def)

lemma conv_d_inj: "0 \<le> x \<Longrightarrow> 0 \<le> y \<Longrightarrow> conv_d x = conv_d y \<Longrightarrow> x = y"
proof -
  assume a: "0 \<le> x" "0 \<le> y" "conv_d x = conv_d y"
  then have "dec_value (dec_digits (nat x)) = dec_value (dec_digits (nat y))"
    by (simp add: conv_d_nonneg)
  then have "nat x = nat y" by (simp add: dec_value_dec_digits)
  with a show ?thesis by simp
qed

lemma conv_03d_inj: "0 \<le> x \<Longrightarrow> 0 \<le> y \<Longrightarrow> conv_03d x = conv_03d y \<Longrightarrow> x = y"
proof -
  assume a: "0 \<le> x" "0 \<le> y" "conv_03d x = conv_03d y"
  then have "dec_value (zero_pad 3 (dec_digits (nat x))) = dec_value (zero_pad 3 (dec_digits (nat y)))"
    by (simp add: conv_03d_nonneg)
  then have "nat x = nat y" by (simp add: dec_value_zero_pad)
  with a show ?thesis by simp
qed

lemma is_digit_digit_char: "d < 10 \<Longrightarrow> is_digit (digit_char d)"
  by (simp add: is_digit_def digit_char_def)

lemma digits_dec_digits: "\<forall>c \<in> set (dec_digits n). is_digit c"
proof (induction n rule: dec_digits.induct)
  case (1 n)
  show ?case
  proof (cases "n < 10")
    case True
    then show ?thesis by (simp add: dec_digits_small is_digit_digit_char)
  next
    case False
    with 1 show ?thesis by (simp add: dec_digits_large is_digit_digit_char)
  qed
qed

lemma digits_zero_pad: "\<forall>c \<in> set (zero_pad w (dec_digits n)). is_digit c"
  using digits_dec_digits [of n] by (auto simp: zero_pad_def is_digit_def)

lemma length_dec_digits: "0 < k \<Longrightarrow> n < 10 ^ k \<Longrightarrow> length (dec_digits n) \<le> k"
proof (induction n arbitrary: k rule: dec_digits.induct)
  case (1 n)
  show ?case
  proof (cases "n < 10")
    case True
    with 1 show ?thesis by (simp add: dec_digits_small)
  next
    case False
    with "1.prems" have k: "1 < k" by (cases "k = 1") auto
    then obtain j where j: "k = Suc j" "0 < j" by (cases k) auto
    with "1.prems" have "n div 10 < 10 ^ j"
      by (simp add: less_mult_imp_div_less mult.commute)
    with 1(1) [OF False j(2)] have "length (dec_digits (n div 10)) \<le> j" by simp
    with False j show ?thesis by (simp add: dec_digits_large)
  qed
qed

lemma length_format_image:
  assumes "0 \<le> i" "i < 2 ^ 31" "0 \<le> imgNum" "imgNum < 100"
  shows "length (format_image i imgNum) \<le> 22"
proof -
  have "nat i < 10 ^ 10" using assms by simp
  then have a: "length (dec_digits (nat i)) \<le> 10"
    by (intro length_dec_digits) simp_all
  have "nat imgNum < 10 ^ 2" using assms by simp
  then have b: "length (dec_digits (nat imgNum)) \<le> 2"
    by (intro length_dec_digits) simp_all
  from a have "length (zero_pad 3 (dec_digits (nat i))) \<le> 10"
    by (simp add: zero_pad_def)
  with b assms show ?thesis
    by (simp add: format_image_def conv_d_nonneg conv_03d_nonneg)
qed

lemma digit_char_eval:
  "digit_char 0 = CHR ''0''" "digit_char (Suc 0) = CHR ''1''" "digit_char 2 = CHR ''2''"
  "digit_char 3 = CHR ''3''" "digit_char 4 = CHR ''4''" "digit_char 5 = CHR ''5''"
  "digit_char 6 = CHR ''6''" "digit_char 7 = CHR ''7''" "digit_char 8 = CHR ''8''"
  "digit_char 9 = CHR ''9''"
  by code_simp+

lemma replicate_eval: "replicate (numeral k) x = x # replicate (pred_numeral k) x"
  by (simp add: numeral_eq_Suc)

lemmas name_eval = format_image_def conv_03d_def conv_d_def zero_pad_def dec_digits_small
        dec_digits_large digit_char_eval fileName_def snprintf_def pgm_name_def c_str_def
        replicate_eval

lemma split_at_first:
  assumes "\<forall>c \<in> set xs. c \<noteq> x" "\<forall>c \<in> set xs'. c \<noteq> x" "xs @ x # ys = xs' @ x # ys'"
  shows "xs = xs' \<and> ys = ys'"
proof -
  have "takeWhile (\<lambda>c. c \<noteq> x) (xs @ x # ys) = xs" using assms(1) by simp
  moreover have "takeWhile (\<lambda>c. c \<noteq> x) (xs' @ x # ys') = xs'" using assms(2) by simp
  ultimately have "xs = xs'" using assms(3) by simp
  with assms(3) show ?thesis by simp
qed

lemma no_underscore_conv_03d: "0 \<le> a \<Longrightarrow> \<forall>c \<in> set (conv_03d a). c \<noteq> CHR ''_''"
  using digits_zero_pad [of 3 "nat a"] by (auto simp: conv_03d_nonneg is_digit_def)

lemma format_image_inj:
  assumes "0 \<le> a" "0 \<le> a'" "0 \<le> b" "0 \<le> b'" "format_image a b = format_image a' b'"
  shows "a = a' \<and> b = b'"
proof -
  from assms(5) have
    "conv_03d a @ CHR ''_'' # (conv_d b @ ''.pgm'') = conv_03d a' @ CHR ''_'' # (conv_d b' @ ''.pgm'')"
    by (simp add: format_image_def)
  then have "conv_03d a = conv_03d a' \<and> conv_d b @ ''.pgm'' = conv_d b' @ ''.pgm''"
    by (rule split_at_first [OF no_underscore_conv_03d [OF assms(1)] no_underscore_conv_03d [OF assms(2)]])
  then have "conv_03d a = conv_03d a'" "conv_d b = conv_d b'" by simp_all
  with assms(1-4) show ?thesis by (simp add: conv_03d_inj conv_d_inj)
qed

lemma no_nul_format_image:
  assumes "0 \<le> a" "0 \<le> b"
  shows "\<forall>c \<in> set (format_image a b). c \<noteq> CHR 0x00"
  using digits_zero_pad [of 3 "nat a"] digits_dec_digits [of "nat b"] assms
  by (auto simp: format_image_def conv_03d_nonneg conv_d_nonneg is_digit_def)

lemma pgm_name_eq:
  assumes "0 \<le> i" "i < 2 ^ 31" "0 \<le> imgNum" "imgNum < 100"
  shows "pgm_name i imgNum = format_image i imgNum"
proof -
  have l: "length (format_image i imgNum) \<le> 22" using assms by (rule length_format_image)
  have n: "\<forall>c \<in> set (format_image i imgNum). c \<noteq> CHR 0x00"
    using assms(1,3) by (rule no_nul_format_image)
  from l have "fileName i imgNum = format_image i imgNum @ [CHR 0x00]"
    by (simp add: fileName_def snprintf_def)
  with n show ?thesis by (simp add: pgm_name_def c_str_def)
qed

text \<open>
  Claim C8. For a set number from 0 to 99 and a sub-image index that is a non-negative
  32-bit \<^verbatim>\<open>int\<close>, the formatted text is shorter than the 100 bytes of the buffer:
  \<^verbatim>\<open>snprintf\<close> stores it whole, followed by the NUL byte, and returns its length;
  the name read back from the buffer is the formatted text.
\<close>

theorem fileName_fits:
  assumes "0 \<le> imgNum" "imgNum < 100" "0 \<le> i" "i < 2 ^ 31"
  shows "snprintf 100 (format_image i imgNum) =
           (format_image i imgNum @ [CHR 0x00], int (length (format_image i imgNum)))
         \<and> length (format_image i imgNum) < 100
         \<and> length (fileName i imgNum) \<le> 100
         \<and> last (fileName i imgNum) = CHR 0x00
         \<and> pgm_name i imgNum = format_image i imgNum"
proof -
  have l: "length (format_image i imgNum) \<le> 22" using assms by (intro length_format_image)
  then have f: "fileName i imgNum = format_image i imgNum @ [CHR 0x00]"
    by (simp add: fileName_def snprintf_def)
  have p: "pgm_name i imgNum = format_image i imgNum" using assms by (intro pgm_name_eq)
  from l have "snprintf 100 (format_image i imgNum) =
           (format_image i imgNum @ [CHR 0x00], int (length (format_image i imgNum)))"
    by (simp add: snprintf_def)
  with l f p show ?thesis by simp
qed

text \<open>The longest name: the largest 32-bit index and the set number 99.\<close>

theorem fileName_fits_witness:
  "(0::int) \<le> 99 \<and> (99::int) < 100 \<and> (0::int) \<le> 2147483647 \<and> (2147483647::int) < 2 ^ 31
   \<and> fileName 2147483647 99 = ''image2147483647_99.pgm'' @ [CHR 0x00]
   \<and> length (fileName 2147483647 99) \<le> 100
   \<and> pgm_name 2147483647 99 = ''image2147483647_99.pgm''"
proof -
  have e: "format_image 2147483647 99 = ''image2147483647_99.pgm''"
    by (simp add: name_eval)
  have f: "fileName 2147483647 99 = ''image2147483647_99.pgm'' @ [CHR 0x00]"
    by (simp add: name_eval)
  show ?thesis
    using fileName_fits [of 99 2147483647] e f by simp
qed

text \<open>
  Claim C9. On pairs of a non-negative sub-image index (a 32-bit \<^verbatim>\<open>int\<close>) and a
  set number from 0 to 99, the file name determines the pair: two different pairs never
  get the same name, so no write replaces the file of another pair.
\<close>

theorem pgm_name_inj:
  assumes "0 \<le> i" "i < 2 ^ 31" "0 \<le> imgNum" "imgNum < 100"
    and "0 \<le> i'" "i' < 2 ^ 31" "0 \<le> imgNum'" "imgNum' < 100"
    and "pgm_name i imgNum = pgm_name i' imgNum'"
  shows "i = i' \<and> imgNum = imgNum'"
proof -
  have "format_image i imgNum = format_image i' imgNum'"
    using assms by (simp add: pgm_name_eq)
  with assms(1,3,5,7) show ?thesis by (intro format_image_inj) simp_all
qed

text \<open>The pairs (1, 10) and (10, 1) get different names.\<close>

theorem pgm_name_inj_witness:
  "pgm_name 1 10 = ''image001_10.pgm'' \<and> pgm_name 10 1 = ''image010_1.pgm''
   \<and> pgm_name 1 10 \<noteq> pgm_name 10 1"
proof -
  have a: "pgm_name 1 10 = ''image001_10.pgm''" by (simp add: name_eval)
  have b: "pgm_name 10 1 = ''image010_1.pgm''" by (simp add: name_eval)
  have "pgm_name 1 10 \<noteq> pgm_name 10 1"
    using pgm_name_inj [of 1 10 10 1] by auto
  with a b show ?thesis by simp
qed

section \<open>Exceptions leave the loops at once\<close>

lemma write_images_done:
  "\<not> i < getNumberOfImages s \<Longrightarrow> write_images s n i = (Normal (), [])"
  by (subst write_images.simps) simp

lemma write_images_step:
  "i < getNumberOfImages s \<Longrightarrow>
   write_images s n i =
     (case writePgmFile s i (pgm_name i n) of
        Some e \<Rightarrow> (Raise e, [WritePgmFile i (pgm_name i n) (Some e)])
      | None \<Rightarrow>
          (case write_images s n (i + 1) of
             (r, evs) \<Rightarrow> (r, WritePgmFile i (pgm_name i n) None # evs)))"
  by (subst write_images.simps) simp

lemma receive_images_done: "\<not> n < 100 \<Longrightarrow> receive_images rs n = (Normal (), [])"
  by (subst receive_images.simps) simp

lemma receive_images_step:
  "n < 100 \<Longrightarrow>
   receive_images rs n =
        (case receive rs of
           (Blocked, rs', evs) \<Rightarrow>
             (Blocked, Cout (''Receiving image set '' @ conv_d n) # evs)
         | (Raise e, rs', evs) \<Rightarrow>
             (Raise e, Cout (''Receiving image set '' @ conv_d n) # evs)
         | (Normal imageSet, rs', evs) \<Rightarrow>
             (case write_images imageSet n 0 of
                (Normal u, wevs) \<Rightarrow>
                  (case receive_images rs' (n + 1) of
                     (r, evs') \<Rightarrow>
                       (r, Cout (''Receiving image set '' @ conv_d n) # evs @ wevs @ evs'))
              | (Raise e, wevs) \<Rightarrow>
                  (Raise e, Cout (''Receiving image set '' @ conv_d n) # evs @ wevs)
              | (Blocked, wevs) \<Rightarrow>
                  (Blocked, Cout (''Receiving image set '' @ conv_d n) # evs @ wevs)))"
  by (subst receive_images.simps) simp

lemma ends_as_Nil: "ends_as (Normal x) []"
  by (simp add: ends_as_def)

lemma ends_as_Normal: "ends_as (Normal x) evs \<longleftrightarrow> (\<forall>ev \<in> set evs. raised ev = None)"
  by (simp add: ends_as_def)

lemma ends_as_Blocked: "ends_as Blocked evs \<longleftrightarrow> (\<forall>ev \<in> set evs. raised ev = None)"
  by (simp add: ends_as_def)

lemma ends_as_Raise:
  "ends_as (Raise e) evs \<longleftrightarrow>
     (\<exists>pre ev. evs = pre @ [ev] \<and> raised ev = Some e \<and> (\<forall>x \<in> set pre. raised x = None))"
proof
  assume a: "ends_as (Raise e) evs"
  then have "evs = butlast evs @ [last evs] \<and> raised (last evs) = Some e
      \<and> (\<forall>x \<in> set (butlast evs). raised x = None)"
    by (simp add: ends_as_def)
  then show "\<exists>pre ev. evs = pre @ [ev] \<and> raised ev = Some e \<and> (\<forall>x \<in> set pre. raised x = None)"
    by blast
next
  assume "\<exists>pre ev. evs = pre @ [ev] \<and> raised ev = Some e \<and> (\<forall>x \<in> set pre. raised x = None)"
  then show "ends_as (Raise e) evs" by (auto simp: ends_as_def)
qed

lemma ends_as_prepend:
  assumes "\<forall>ev \<in> set xs. raised ev = None" "ends_as r evs"
  shows "ends_as r (xs @ evs)"
proof (cases r)
  case (Raise e)
  with assms(2) obtain pre ev where
    "evs = pre @ [ev]" "raised ev = Some e" "\<forall>x \<in> set pre. raised x = None"
    by (auto simp: ends_as_Raise)
  with assms(1) have "xs @ evs = (xs @ pre) @ [ev] \<and> raised ev = Some e \<and> (\<forall>x \<in> set (xs @ pre). raised x = None)"
    by auto
  then show ?thesis unfolding Raise ends_as_Raise by blast
qed (use assms in \<open>auto simp: ends_as_def\<close>)

lemma ends_as_receive: "receive rs = (r, rs', evs) \<Longrightarrow> ends_as r evs"
proof (induction rs arbitrary: r rs' evs rule: receive.induct)
  case 1
  then show ?case by (simp add: ends_as_def)
next
  case (2 rs)
  obtain r0 rs0 evs0 where e: "receive rs = (r0, rs0, evs0)" by (cases "receive rs") auto
  with 2 have "ends_as r0 evs0" by simp
  then have "ends_as r0 ([CollectReceivedImageSet (1 / 10) (Inr None)] @ evs0)"
    by (intro ends_as_prepend) simp_all
  with 2(2) e show ?case by simp
next
  case (3 s rs)
  then show ?case by (auto simp: ends_as_def)
next
  case (4 e rs)
  then show ?case by (auto simp: ends_as_def)
qed

lemma ends_as_write_images: "write_images s n i = (r, evs) \<Longrightarrow> ends_as r evs"
proof (induction s n i arbitrary: r evs rule: write_images.induct)
  case (1 s n i)
  show ?case
  proof (cases "i < getNumberOfImages s")
    case False
    with 1(2) show ?thesis by (auto simp: write_images_done ends_as_def)
  next
    case True
    show ?thesis
    proof (cases "writePgmFile s i (pgm_name i n)")
      case (Some e)
      with True 1(2) show ?thesis by (auto simp: write_images_step ends_as_def)
    next
      case None
      obtain r0 evs0 where e: "write_images s n (i + 1) = (r0, evs0)"
        by (cases "write_images s n (i + 1)") auto
      with 1(1) [OF True None] have "ends_as r0 evs0" by simp
      then have "ends_as r0 ([WritePgmFile i (pgm_name i n) None] @ evs0)"
        by (intro ends_as_prepend) simp_all
      with True None e 1(2) show ?thesis by (simp add: write_images_step)
    qed
  qed
qed

lemma write_images_not_Blocked: "fst (write_images s n i) \<noteq> Blocked"
proof (induction s n i rule: write_images.induct)
  case (1 s n i)
  show ?case
  proof (cases "i < getNumberOfImages s")
    case False
    then show ?thesis by (simp add: write_images_done)
  next
    case True
    with 1 show ?thesis
      by (auto simp: write_images_step split: option.splits prod.splits)
  qed
qed

lemma ends_as_retype:
  "ends_as (Raise e :: 'a flow) evs \<Longrightarrow> ends_as (Raise e :: 'b flow) evs"
  "ends_as (Blocked :: 'a flow) evs \<Longrightarrow> ends_as (Blocked :: 'b flow) evs"
  by (simp_all add: ends_as_def)

lemma receive_images_cases [consumes 2, case_names blocked receive_raises write_raises continue]:
  assumes "n < 100" "receive_images rs n = (r, evs)"
  obtains
    rs' pevs where "receive rs = (Blocked, rs', pevs)" "r = Blocked"
      "evs = Cout (''Receiving image set '' @ conv_d n) # pevs"
  | e rs' pevs where "receive rs = (Raise e, rs', pevs)" "r = Raise e"
      "evs = Cout (''Receiving image set '' @ conv_d n) # pevs"
  | s rs' pevs e wevs where "receive rs = (Normal s, rs', pevs)"
      "write_images s n 0 = (Raise e, wevs)" "r = Raise e"
      "evs = Cout (''Receiving image set '' @ conv_d n) # pevs @ wevs"
  | s rs' pevs wevs evs' where "receive rs = (Normal s, rs', pevs)"
      "write_images s n 0 = (Normal (), wevs)" "receive_images rs' (n + 1) = (r, evs')"
      "evs = Cout (''Receiving image set '' @ conv_d n) # pevs @ wevs @ evs'"
proof -
  obtain r0 rs' pevs where rc: "receive rs = (r0, rs', pevs)" by (cases "receive rs") auto
  have res: "(r, evs) = receive_images rs n" using assms(2) by simp
  show thesis
  proof (cases r0)
    case Blocked
    have "receive_images rs n = (Blocked, Cout (''Receiving image set '' @ conv_d n) # pevs)"
      using assms(1) rc Blocked by (simp add: receive_images_step)
    with res have "r = Blocked" "evs = Cout (''Receiving image set '' @ conv_d n) # pevs"
      by simp_all
    with rc Blocked show thesis by (intro that(1)) simp_all
  next
    case (Raise e)
    have "receive_images rs n = (Raise e, Cout (''Receiving image set '' @ conv_d n) # pevs)"
      using assms(1) rc Raise by (simp add: receive_images_step)
    with res have "r = Raise e" "evs = Cout (''Receiving image set '' @ conv_d n) # pevs"
      by simp_all
    with rc Raise show thesis by (intro that(2)) simp_all
  next
    case (Normal s)
    obtain r1 wevs where wr: "write_images s n 0 = (r1, wevs)"
      by (cases "write_images s n 0") auto
    show thesis
    proof (cases r1)
      case Blocked
      with wr write_images_not_Blocked [of s n 0] show thesis by simp
    next
      case (Raise e)
      have "receive_images rs n =
          (Raise e, Cout (''Receiving image set '' @ conv_d n) # pevs @ wevs)"
        using assms(1) rc Normal wr Raise by (simp add: receive_images_step)
      with res have "r = Raise e"
        "evs = Cout (''Receiving image set '' @ conv_d n) # pevs @ wevs"
        by simp_all
      with rc Normal wr Raise show thesis by (intro that(3)) simp_all
    next
      case Normal': (Normal u)
      obtain r2 evs' where nx: "receive_images rs' (n + 1) = (r2, evs')"
        by (cases "receive_images rs' (n + 1)") auto
      have "receive_images rs n =
          (r2, Cout (''Receiving image set '' @ conv_d n) # pevs @ wevs @ evs')"
        using assms(1) rc Normal wr Normal' nx by (simp add: receive_images_step)
      with res have "r = r2"
        "evs = Cout (''Receiving image set '' @ conv_d n) # pevs @ wevs @ evs'"
        by simp_all
      with rc Normal wr Normal' nx show thesis by (intro that(4)) simp_all
    qed
  qed
qed

lemma ends_as_receive_images: "receive_images rs n = (r, evs) \<Longrightarrow> ends_as r evs"
proof (induction k \<equiv> "nat (100 - n)" arbitrary: n rs r evs)
  case 0
  then show ?case by (auto simp: receive_images_done ends_as_def)
next
  case (Suc k)
  then have lt: "n < 100" by simp
  from lt Suc(3) show ?case
  proof (cases rule: receive_images_cases)
    case (blocked rs' pevs)
    from ends_as_receive [OF blocked(1)] have "ends_as (Blocked :: unit flow) pevs"
      by (rule ends_as_retype)
    then have "ends_as (Blocked :: unit flow) ([Cout (''Receiving image set '' @ conv_d n)] @ pevs)"
      by (intro ends_as_prepend) simp_all
    with blocked show ?thesis by simp
  next
    case (receive_raises e rs' pevs)
    from ends_as_receive [OF receive_raises(1)] have "ends_as (Raise e :: unit flow) pevs"
      by (rule ends_as_retype)
    then have "ends_as (Raise e :: unit flow) ([Cout (''Receiving image set '' @ conv_d n)] @ pevs)"
      by (intro ends_as_prepend) simp_all
    with receive_raises show ?thesis by simp
  next
    case (write_raises s rs' pevs e wevs)
    from ends_as_receive [OF write_raises(1)]
    have a: "\<forall>ev \<in> set pevs. raised ev = None" by (simp add: ends_as_Normal)
    from ends_as_write_images [OF write_raises(2)] a
    have "ends_as (Raise e :: unit flow) ((Cout (''Receiving image set '' @ conv_d n) # pevs) @ wevs)"
      by (intro ends_as_prepend) simp_all
    with write_raises show ?thesis by simp
  next
    case (continue s rs' pevs wevs evs')
    from ends_as_receive [OF continue(1)]
    have a: "\<forall>ev \<in> set pevs. raised ev = None" by (simp add: ends_as_Normal)
    from ends_as_write_images [OF continue(2)]
    have b: "\<forall>ev \<in> set wevs. raised ev = None" by (simp add: ends_as_Normal)
    from Suc(2) have "k = nat (100 - (n + 1))" by simp
    from Suc(1) [OF this continue(3)] have "ends_as r evs'" .
    with a b have "ends_as r ((Cout (''Receiving image set '' @ conv_d n) # pevs @ wevs) @ evs')"
      by (intro ends_as_prepend) auto
    with continue show ?thesis by simp
  qed
qed

lemma ends_as_try_block: "try_block w = (r, evs) \<Longrightarrow> ends_as r evs"
proof -
  assume a: "try_block w = (r, evs)"
  show ?thesis
  proof (cases "discoverDevices w")
    case (Inl e)
    with a show ?thesis by (auto simp: try_block_def ends_as_def)
  next
    case (Inr devices)
    show ?thesis
    proof (cases "devices = []")
      case True
      with a Inr show ?thesis by (auto simp: try_block_def ends_as_def)
    next
      case False
      show ?thesis
      proof (cases "AsyncTransfer w (devices ! 0)")
        case (Some e)
        with a Inr False have "r = Raise e" "evs = header devices (Some e)"
          by (auto simp: try_block_def)
        then show ?thesis by (auto simp: ends_as_def header_def butlast_append)
      next
        case None
        obtain r0 evs0 where l: "receive_images (collectReceivedImageSet w) 0 = (r0, evs0)"
          by (cases "receive_images (collectReceivedImageSet w) 0") auto
        then have "ends_as r0 evs0" by (rule ends_as_receive_images)
        then have "ends_as r0 (header devices None @ evs0)"
          by (intro ends_as_prepend) (auto simp: header_def)
        moreover from a Inr False None l have "evs = header devices None @ evs0"
          and "r = (case r0 of Normal u \<Rightarrow> Normal None | Raise e \<Rightarrow> Raise e | Blocked \<Rightarrow> Blocked)"
          by (cases r0; simp add: try_block_def)+
        ultimately show ?thesis by (cases r0) (auto simp: ends_as_def)
      qed
    qed
  qed
qed

section \<open>The events of the loops\<close>

lemma receive_events:
  "receive rs = (r, rs', evs) \<Longrightarrow>
   \<exists>k. evs = replicate k (CollectReceivedImageSet (1 / 10) (Inr None)) @
     (case r of Normal s \<Rightarrow> [CollectReceivedImageSet (1 / 10) (Inr (Some s))]
      | Raise e \<Rightarrow> [CollectReceivedImageSet (1 / 10) (Inl e)]
      | Blocked \<Rightarrow> [])"
proof (induction rs arbitrary: r rs' evs rule: receive.induct)
  case 1
  then show ?case by auto
next
  case (2 rs)
  obtain r0 rs0 evs0 where e: "receive rs = (r0, rs0, evs0)" by (cases "receive rs") auto
  from 2(1) [OF e] obtain k where
    k: "evs0 = replicate k (CollectReceivedImageSet (1 / 10) (Inr None)) @
     (case r0 of Normal s \<Rightarrow> [CollectReceivedImageSet (1 / 10) (Inr (Some s))]
      | Raise e \<Rightarrow> [CollectReceivedImageSet (1 / 10) (Inl e)]
      | Blocked \<Rightarrow> [])" by blast
  from 2(2) e have "r = r0" "evs = CollectReceivedImageSet (1 / 10) (Inr None) # evs0" by auto
  with k have "evs = replicate (Suc k) (CollectReceivedImageSet (1 / 10) (Inr None)) @
     (case r of Normal s \<Rightarrow> [CollectReceivedImageSet (1 / 10) (Inr (Some s))]
      | Raise e \<Rightarrow> [CollectReceivedImageSet (1 / 10) (Inl e)]
      | Blocked \<Rightarrow> [])" by simp
  then show ?case by blast
next
  case (3 s rs)
  then have "evs = replicate 0 (CollectReceivedImageSet (1 / 10) (Inr None)) @
     (case r of Normal s \<Rightarrow> [CollectReceivedImageSet (1 / 10) (Inr (Some s))]
      | Raise e \<Rightarrow> [CollectReceivedImageSet (1 / 10) (Inl e)]
      | Blocked \<Rightarrow> [])" by auto
  then show ?case by blast
next
  case (4 e rs)
  then have "evs = replicate 0 (CollectReceivedImageSet (1 / 10) (Inr None)) @
     (case r of Normal s \<Rightarrow> [CollectReceivedImageSet (1 / 10) (Inr (Some s))]
      | Raise e \<Rightarrow> [CollectReceivedImageSet (1 / 10) (Inl e)]
      | Blocked \<Rightarrow> [])" by auto
  then show ?case by blast
qed

lemma receive_Normal:
  assumes "receive rs = (Normal s, rs', evs)"
  obtains k where "evs = replicate k (CollectReceivedImageSet (1 / 10) (Inr None)) @
     [CollectReceivedImageSet (1 / 10) (Inr (Some s))]"
  using receive_events [OF assms] by auto

lemma receive_Raise:
  assumes "receive rs = (Raise e, rs', evs)"
  obtains k where "evs = replicate k (CollectReceivedImageSet (1 / 10) (Inr None)) @
     [CollectReceivedImageSet (1 / 10) (Inl e)]"
  using receive_events [OF assms] by auto

lemma receive_Blocked:
  assumes "receive rs = (Blocked, rs', evs)"
  obtains k where "evs = replicate k (CollectReceivedImageSet (1 / 10) (Inr None))"
  using receive_events [OF assms] by auto

lemma write_images_events: "write_images s n i = (r, evs) \<Longrightarrow> \<forall>ev \<in> set evs. is_write ev"
proof (induction s n i arbitrary: r evs rule: write_images.induct)
  case (1 s n i)
  show ?case
  proof (cases "i < getNumberOfImages s")
    case False
    with 1(2) show ?thesis by (auto simp: write_images_done)
  next
    case True
    show ?thesis
    proof (cases "writePgmFile s i (pgm_name i n)")
      case (Some e)
      with True 1(2) show ?thesis by (auto simp: write_images_step)
    next
      case None
      obtain r0 evs0 where e: "write_images s n (i + 1) = (r0, evs0)"
        by (cases "write_images s n (i + 1)") auto
      with 1(1) [OF True None] have "\<forall>ev \<in> set evs0. is_write ev" by simp
      with True None e 1(2) show ?thesis by (auto simp: write_images_step)
    qed
  qed
qed

lemma couts_simps [simp]:
  "couts [] = []"
  "couts (Cout s # evs) = s # couts evs"
  "couts (xs @ ys) = couts xs @ couts ys"
  by (simp_all add: couts_def)

lemma couts_none: "\<forall>ev \<in> set evs. is_write ev \<or> is_collect ev \<Longrightarrow> couts evs = []"
proof (induction evs)
  case Nil
  then show ?case by simp
next
  case (Cons ev evs)
  then show ?case by (cases ev) (simp_all add: couts_def)
qed

lemma no_received_writes: "\<forall>ev \<in> set evs. is_write ev \<Longrightarrow> filter is_received evs = []"
proof (induction evs)
  case Nil
  then show ?case by simp
next
  case (Cons ev evs)
  then show ?case by (cases ev) simp_all
qed

lemma receive_images_Normal:
  "receive_images rs n = (Normal u, evs) \<Longrightarrow> n \<le> 100 \<Longrightarrow>
   length (filter is_received evs) = nat (100 - n) \<and>
   couts evs = map (\<lambda>k. ''Receiving image set '' @ conv_d k) [n..99]"
proof (induction k \<equiv> "nat (100 - n)" arbitrary: n rs evs)
  case 0
  then have "n = 100" by simp
  with 0 show ?case by (auto simp: receive_images_done)
next
  case (Suc k)
  then have lt: "n < 100" by simp
  from lt Suc(3) show ?case
  proof (cases rule: receive_images_cases)
    case (continue s rs' pevs wevs evs')
    from continue(1) obtain j where
      p: "pevs = replicate j (CollectReceivedImageSet (1 / 10) (Inr None)) @
            [CollectReceivedImageSet (1 / 10) (Inr (Some s))]"
      by (rule receive_Normal)
    have w: "\<forall>ev \<in> set wevs. is_write ev" using continue(2) by (rule write_images_events)
    from Suc(2) have "k = nat (100 - (n + 1))" by simp
    from Suc(1) [OF this continue(3)] lt
    have ih: "length (filter is_received evs') = nat (100 - (n + 1))"
      "couts evs' = map (\<lambda>k. ''Receiving image set '' @ conv_d k) [n + 1..99]"
      by simp_all
    have c1: "couts pevs = []" using p by (intro couts_none) auto
    have c2: "couts wevs = []" using w by (intro couts_none) auto
    have f1: "length (filter is_received pevs) = 1" using p by simp
    have f2: "filter is_received wevs = []" using w by (rule no_received_writes)
    have u: "[n..99] = n # [n + 1..99]" using lt by (simp add: upto_rec1)
    from continue(4) ih c1 c2 f1 f2 u lt show ?thesis by simp
  qed simp_all
qed

section \<open>The exit code and the handler\<close>

lemma main_try_block:
  assumes "try_block w = (r, evs)"
  shows "main w =
     (case r of
        Normal (Some c) \<Rightarrow> (Returned c, evs)
      | Normal None \<Rightarrow> (Returned 0, evs)
      | Raise (StdException m) \<Rightarrow> (Returned 0, evs @ [Cerr (''Exception occurred: '' @ m)])
      | Raise OtherException \<Rightarrow> (Uncaught OtherException, evs)
      | Blocked \<Rightarrow> (PollsForever, evs))"
  using assms by (simp add: main_def)

lemma try_block_no_devices:
  "discoverDevices w = Inr [] \<Longrightarrow>
   try_block w = (Normal (Some (- 1)), [DiscoverDevices None, Cout ''No devices discovered!''])"
  by (simp add: try_block_def)

lemma try_block_discover_raises:
  "discoverDevices w = Inl e \<Longrightarrow> try_block w = (Raise e, [DiscoverDevices (Some e)])"
  by (simp add: try_block_def)

lemma try_block_transfer_raises:
  "discoverDevices w = Inr ds \<Longrightarrow> ds \<noteq> [] \<Longrightarrow> AsyncTransfer w (ds ! 0) = Some e \<Longrightarrow>
   try_block w = (Raise e, header ds (Some e))"
  by (simp add: try_block_def)

lemma try_block_loop:
  "discoverDevices w = Inr ds \<Longrightarrow> ds \<noteq> [] \<Longrightarrow> AsyncTransfer w (ds ! 0) = None \<Longrightarrow>
   receive_images (collectReceivedImageSet w) 0 = (r, evs) \<Longrightarrow>
   try_block w =
     (case r of Normal u \<Rightarrow> Normal None | Raise e \<Rightarrow> Raise e | Blocked \<Rightarrow> Blocked,
      header ds None @ evs)"
  by (cases r) (simp_all add: try_block_def)

lemma try_block_return:
  assumes "try_block w = (Normal (Some c), evs)"
  shows "discoverDevices w = Inr [] \<and> c = - 1"
proof (cases "discoverDevices w")
  case (Inl e)
  with assms show ?thesis by (simp add: try_block_discover_raises)
next
  case (Inr ds)
  show ?thesis
  proof (cases "ds = []")
    case True
    with Inr assms show ?thesis by (simp add: try_block_no_devices)
  next
    case False
    show ?thesis
    proof (cases "AsyncTransfer w (ds ! 0)")
      case (Some e)
      with Inr False assms show ?thesis by (simp add: try_block_transfer_raises)
    next
      case None
      obtain r evs' where "receive_images (collectReceivedImageSet w) 0 = (r, evs')"
        by (cases "receive_images (collectReceivedImageSet w) 0") auto
      with Inr False None assms show ?thesis
        by (cases r) (simp_all add: try_block_loop)
    qed
  qed
qed

lemma main_cases [case_names no_devices discover_raises transfer_raises loop]:
  obtains
    "discoverDevices w = Inr []"
    "main w = (Returned (- 1), [DiscoverDevices None, Cout ''No devices discovered!''])"
  | e where "discoverDevices w = Inl e"
      "main w =
        (case e of
           StdException m \<Rightarrow>
             (Returned 0, [DiscoverDevices (Some e), Cerr (''Exception occurred: '' @ m)])
         | OtherException \<Rightarrow> (Uncaught OtherException, [DiscoverDevices (Some e)]))"
  | ds e where "discoverDevices w = Inr ds" "ds \<noteq> []" "AsyncTransfer w (ds ! 0) = Some e"
      "main w =
        (case e of
           StdException m \<Rightarrow>
             (Returned 0, header ds (Some e) @ [Cerr (''Exception occurred: '' @ m)])
         | OtherException \<Rightarrow> (Uncaught OtherException, header ds (Some e)))"
  | ds r evs where "discoverDevices w = Inr ds" "ds \<noteq> []" "AsyncTransfer w (ds ! 0) = None"
      "receive_images (collectReceivedImageSet w) 0 = (r, evs)"
      "main w =
        (case r of
           Normal u \<Rightarrow> (Returned 0, header ds None @ evs)
         | Raise (StdException m) \<Rightarrow>
             (Returned 0, header ds None @ evs @ [Cerr (''Exception occurred: '' @ m)])
         | Raise OtherException \<Rightarrow> (Uncaught OtherException, header ds None @ evs)
         | Blocked \<Rightarrow> (PollsForever, header ds None @ evs))"
proof (cases "discoverDevices w")
  case (Inl e)
  then have "try_block w = (Raise e, [DiscoverDevices (Some e)])"
    by (rule try_block_discover_raises)
  then have "main w =
        (case e of
           StdException m \<Rightarrow>
             (Returned 0, [DiscoverDevices (Some e), Cerr (''Exception occurred: '' @ m)])
         | OtherException \<Rightarrow> (Uncaught OtherException, [DiscoverDevices (Some e)]))"
    by (cases e) (simp_all add: main_try_block)
  with Inl show thesis by (rule that(2))
next
  case (Inr ds)
  show thesis
  proof (cases "ds = []")
    case True
    with Inr have d: "discoverDevices w = Inr []" by simp
    then have "main w = (Returned (- 1), [DiscoverDevices None, Cout ''No devices discovered!''])"
      by (simp add: main_try_block [OF try_block_no_devices])
    with d show thesis by (rule that(1))
  next
    case False
    show thesis
    proof (cases "AsyncTransfer w (ds ! 0)")
      case (Some e)
      with Inr False have "try_block w = (Raise e, header ds (Some e))"
        by (intro try_block_transfer_raises)
      then have "main w =
        (case e of
           StdException m \<Rightarrow>
             (Returned 0, header ds (Some e) @ [Cerr (''Exception occurred: '' @ m)])
         | OtherException \<Rightarrow> (Uncaught OtherException, header ds (Some e)))"
        by (cases e) (simp_all add: main_try_block)
      with Inr False Some show thesis by (rule that(3))
    next
      case None
      obtain r evs where l: "receive_images (collectReceivedImageSet w) 0 = (r, evs)"
        by (cases "receive_images (collectReceivedImageSet w) 0") auto
      with Inr False None have "try_block w =
         (case r of Normal u \<Rightarrow> Normal None | Raise e \<Rightarrow> Raise e | Blocked \<Rightarrow> Blocked,
          header ds None @ evs)"
        by (intro try_block_loop)
      then have "main w =
        (case r of
           Normal u \<Rightarrow> (Returned 0, header ds None @ evs)
         | Raise (StdException m) \<Rightarrow>
             (Returned 0, header ds None @ evs @ [Cerr (''Exception occurred: '' @ m)])
         | Raise OtherException \<Rightarrow> (Uncaught OtherException, header ds None @ evs)
         | Blocked \<Rightarrow> (PollsForever, header ds None @ evs))"
        by (cases r) (simp_all add: main_try_block split: exn.splits)
      with Inr False None l show thesis by (rule that(4))
    qed
  qed
qed

lemma no_cerr_receive_images:
  "receive_images rs n = (r, evs) \<Longrightarrow> \<forall>ev \<in> set evs. \<not> is_cerr ev"
proof (induction k \<equiv> "nat (100 - n)" arbitrary: n rs evs)
  case 0
  then show ?case by (auto simp: receive_images_done)
next
  case (Suc k)
  then have lt: "n < 100" by simp
  have p: "\<forall>ev \<in> set pevs. \<not> is_cerr ev" if "receive rs = (r0, rs', pevs)" for r0 rs' pevs
    using receive_events [OF that] by (cases r0) auto
  have q: "\<forall>ev \<in> set wevs. \<not> is_cerr ev" if "write_images s n 0 = (r1, wevs)" for s r1 wevs
  proof
    fix ev assume "ev \<in> set wevs"
    with write_images_events [OF that] have "is_write ev" by simp
    then show "\<not> is_cerr ev" by (cases ev) simp_all
  qed
  from lt Suc(3) show ?case
  proof (cases rule: receive_images_cases)
    case (blocked rs' pevs)
    with p [OF blocked(1)] show ?thesis by simp
  next
    case (receive_raises e rs' pevs)
    with p [OF receive_raises(1)] show ?thesis by simp
  next
    case (write_raises s rs' pevs e wevs)
    with p [OF write_raises(1)] q [OF write_raises(2)] show ?thesis by auto
  next
    case (continue s rs' pevs wevs evs')
    from Suc(2) have "k = nat (100 - (n + 1))" by simp
    from Suc(1) [OF this continue(3)] have "\<forall>ev \<in> set evs'. \<not> is_cerr ev" .
    with continue p [OF continue(1)] q [OF continue(2)] show ?thesis by auto
  qed
qed

lemma no_cerr_header: "\<forall>ev \<in> set (header ds r). \<not> is_cerr ev"
  by (auto simp: header_def)

text \<open>
  Claim C10. When no device is discovered, the run consists of the enumeration, the line
  \<^verbatim>\<open>No devices discovered!\<close> on standard output and the return value \<open>-1\<close>: no
  transfer object is constructed, no reception is attempted and no file is written.
\<close>

theorem main_no_devices:
  "discoverDevices w = Inr [] \<Longrightarrow>
   main w = (Returned (- 1), [DiscoverDevices None, Cout ''No devices discovered!''])"
  by (simp add: main_try_block [OF try_block_no_devices])

text \<open>
  Claim C3, amended. Every exception derived from \<^verbatim>\<open>std::exception\<close> that a call in
  the body of \<^verbatim>\<open>main\<close> throws (enumeration, construction of the transfer, reception
  or file writing) is caught: the throwing call is the last call of the run, the line
  \<^verbatim>\<open>Exception occurred: \<close> followed by the message goes to standard error right
  after it, nothing else follows, and \<^verbatim>\<open>main\<close> returns \<open>0\<close>.
\<close>

theorem main_catches_std_exception:
  assumes "ev \<in> set (snd (main w))" "raised ev = Some (StdException m)"
  shows "fst (main w) = Returned 0 \<and>
    (\<exists>pre. snd (main w) = pre @ [ev, Cerr (''Exception occurred: '' @ m)]
       \<and> (\<forall>x \<in> set pre. raised x = None))"
proof -
  obtain r evs where t: "try_block w = (r, evs)" by (cases "try_block w") auto
  then have e: "ends_as r evs" by (rule ends_as_try_block)
  have in_evs: "ev \<in> set evs"
  proof -
    have "set (snd (main w)) \<subseteq> set evs \<union> {x. raised x = None}"
      by (auto simp: main_try_block [OF t] split: flow.splits option.splits exn.splits)
    with assms show ?thesis by auto
  qed
  show ?thesis
  proof (cases r)
    case (Normal x)
    with e in_evs assms(2) show ?thesis by (auto simp: ends_as_Normal)
  next
    case Blocked
    with e in_evs assms(2) show ?thesis by (auto simp: ends_as_Blocked)
  next
    case (Raise e')
    with e obtain pre ev' where
      p: "evs = pre @ [ev']" "raised ev' = Some e'" "\<forall>x \<in> set pre. raised x = None"
      by (auto simp: ends_as_Raise)
    with in_evs assms(2) have "ev = ev'" by auto
    with p assms(2) have e': "e' = StdException m" by simp
    with Raise have "main w = (Returned 0, evs @ [Cerr (''Exception occurred: '' @ m)])"
      by (simp add: main_try_block [OF t])
    with p \<open>ev = ev'\<close> show ?thesis by simp
  qed
qed

lemmas run_eval = main_def try_block_def header_def receive_images_step receive_images_done
  write_images_step write_images_done name_eval

section \<open>The writes that follow a reception\<close>

lemma write_images_shape:
  "write_images s n i = (r, evs) \<Longrightarrow>
   \<exists>k. i \<le> k \<and> k \<le> max i (getNumberOfImages s)
     \<and> evs = map (write_call s n) [i..k - 1]
     \<and> (\<forall>j. i \<le> j \<and> j < k - 1 \<longrightarrow> writePgmFile s j (pgm_name j n) = None)
     \<and> (k < getNumberOfImages s \<longrightarrow> i < k \<and> writePgmFile s (k - 1) (pgm_name (k - 1) n) \<noteq> None)
     \<and> (r = Normal () \<longrightarrow> k = max i (getNumberOfImages s))"
proof (induction s n i arbitrary: r evs rule: write_images.induct)
  case (1 s n i)
  show ?case
  proof (cases "i < getNumberOfImages s")
    case False
    with 1(2) have "evs = []" by (auto simp: write_images_done)
    with False show ?thesis by (intro exI [of _ i]) auto
  next
    case True
    show ?thesis
    proof (cases "writePgmFile s i (pgm_name i n)")
      case (Some e)
      with True 1(2) have "evs = [write_call s n i]" "r = Raise e"
        by (auto simp: write_images_step write_call_def)
      with True Some show ?thesis by (intro exI [of _ "i + 1"]) auto
    next
      case None
      obtain r0 evs0 where e: "write_images s n (i + 1) = (r0, evs0)"
        by (cases "write_images s n (i + 1)") auto
      from 1(1) [OF True None e] obtain k where k:
        "i + 1 \<le> k" "k \<le> max (i + 1) (getNumberOfImages s)"
        "evs0 = map (write_call s n) [i + 1..k - 1]"
        "\<forall>j. i + 1 \<le> j \<and> j < k - 1 \<longrightarrow> writePgmFile s j (pgm_name j n) = None"
        "k < getNumberOfImages s \<longrightarrow> i + 1 < k \<and> writePgmFile s (k - 1) (pgm_name (k - 1) n) \<noteq> None"
        "r0 = Normal () \<longrightarrow> k = max (i + 1) (getNumberOfImages s)"
        by blast
      from True None e 1(2) have r: "r = r0" "evs = write_call s n i # evs0"
        by (auto simp: write_images_step write_call_def)
      have u: "[i..k - 1] = i # [i + 1..k - 1]" using k(1) by (simp add: upto_rec1)
      have a: "evs = map (write_call s n) [i..k - 1]" using r k(3) u by simp
      have b: "\<forall>j. i \<le> j \<and> j < k - 1 \<longrightarrow> writePgmFile s j (pgm_name j n) = None"
      proof (intro allI impI)
        fix j assume j: "i \<le> j \<and> j < k - 1"
        show "writePgmFile s j (pgm_name j n) = None"
        proof (cases "j = i")
          case True
          with None show ?thesis by simp
        next
          case False
          with j k(4) show ?thesis by simp
        qed
      qed
      from True k(1,2) have c: "i \<le> k" "k \<le> max i (getNumberOfImages s)" by simp_all
      from k(5) have d: "k < getNumberOfImages s \<longrightarrow> i < k \<and> writePgmFile s (k - 1) (pgm_name (k - 1) n) \<noteq> None"
        by auto
      from k(6) r True have f: "r = Normal () \<longrightarrow> k = max i (getNumberOfImages s)" by auto
      from a b c d f show ?thesis by blast
    qed
  qed
qed

lemma first_split:
  assumes "\<forall>x \<in> set xs. \<not> P x" "P c" "xs @ c0 # zs = pre @ c # post"
  shows "(pre = xs \<and> c = c0 \<and> post = zs) \<or> (\<exists>pre'. pre = xs @ c0 # pre' \<and> zs = pre' @ c # post)"
  using assms
proof (induction xs arbitrary: pre)
  case Nil
  then show ?case by (cases pre) auto
next
  case (Cons x xs)
  show ?case
  proof (cases pre)
    case Nil
    with Cons.prems show ?thesis by auto
  next
    case (Cons p pre0)
    with Cons.prems have "xs @ c0 # zs = pre0 @ c # post" "x = p" by simp_all
    with Cons.IH [of pre0] Cons.prems(1,2) Cons show ?thesis by auto
  qed
qed

lemma skip_split:
  assumes "\<forall>x \<in> set ws. \<not> P x" "P c" "ws @ ys = pre @ c # post"
  shows "\<exists>pre'. pre = ws @ pre' \<and> ys = pre' @ c # post"
  using assms
proof (induction ws arbitrary: pre)
  case Nil
  then show ?case by simp
next
  case (Cons x ws)
  show ?case
  proof (cases pre)
    case Nil
    with Cons.prems show ?thesis by auto
  next
    case (Cons p pre0)
    with Cons.prems have "ws @ ys = pre0 @ c # post" "x = p" by simp_all
    with Cons.IH [of pre0] Cons.prems(1,2) Cons show ?thesis by auto
  qed
qed

lemma receive_images_head:
  "receive_images rs n = (r, evs) \<Longrightarrow> evs = [] \<or> (\<exists>x evs0. evs = Cout x # evs0)"
proof (cases "n < 100")
  case False
  assume "receive_images rs n = (r, evs)"
  with False show ?thesis by (auto simp: receive_images_done)
next
  case True
  assume "receive_images rs n = (r, evs)"
  with True show ?thesis by (cases rule: receive_images_cases) auto
qed

lemma takeWhile_writes:
  assumes "\<forall>ev \<in> set ws. is_write ev" "evs = [] \<or> (\<exists>x evs0. evs = Cout x # evs0)"
  shows "takeWhile is_write (ws @ evs) = ws"
  using assms by (auto simp: takeWhile_append2)

lemma not_received_write: "is_write ev \<Longrightarrow> \<not> is_received ev"
  by (cases ev) simp_all

lemma receive_images_writes:
  "receive_images rs n = (r, evs) \<Longrightarrow>
   evs = pre @ CollectReceivedImageSet t (Inr (Some s)) # post \<Longrightarrow>
   n + int (length (filter is_received pre)) < 100 \<and>
   takeWhile is_write post = snd (write_images s (n + int (length (filter is_received pre))) 0)"
proof (induction k \<equiv> "nat (100 - n)" arbitrary: n rs evs pre post)
  case 0
  then show ?case by (auto simp: receive_images_done)
next
  case (Suc k)
  then have lt: "n < 100" by simp
  let ?C = "CollectReceivedImageSet t (Inr (Some s))"
  let ?F = "CollectReceivedImageSet (1 / 10) (Inr None)"
  let ?line = "Cout (''Receiving image set '' @ conv_d n)"
  have rc: "is_received ?C" by simp
  from lt Suc(3) show ?case
  proof (cases rule: receive_images_cases)
    case (blocked rs' pevs)
    from blocked(1) obtain j where "pevs = replicate j ?F" by (rule receive_Blocked)
    with blocked(3) have "\<forall>ev \<in> set evs. \<not> is_received ev" by auto
    with Suc(4) show ?thesis by auto
  next
    case (receive_raises e rs' pevs)
    from receive_raises(1) obtain j where
      "pevs = replicate j ?F @ [CollectReceivedImageSet (1 / 10) (Inl e)]"
      by (rule receive_Raise)
    with receive_raises(3) have "\<forall>ev \<in> set evs. \<not> is_received ev" by auto
    with Suc(4) show ?thesis by auto
  next
    case (write_raises s0 rs' pevs e wevs)
    from write_raises(1) obtain j where
      p: "pevs = replicate j ?F @ [CollectReceivedImageSet (1 / 10) (Inr (Some s0))]"
      by (rule receive_Normal)
    have w: "\<forall>ev \<in> set wevs. is_write ev" using write_raises(2) by (rule write_images_events)
    have x: "\<forall>x \<in> set (?line # replicate j ?F). \<not> is_received x" by auto
    from write_raises(4) p Suc(4)
    have "(?line # replicate j ?F) @ CollectReceivedImageSet (1 / 10) (Inr (Some s0)) # wevs
        = pre @ ?C # post" by simp
    from first_split [of "?line # replicate j ?F" is_received, OF x rc this]
    show ?thesis
    proof
      assume a: "pre = ?line # replicate j ?F \<and> ?C = CollectReceivedImageSet (1 / 10) (Inr (Some s0)) \<and> post = wevs"
      then have "filter is_received pre = []" by auto
      moreover from a w have "takeWhile is_write post = wevs" by simp
      moreover from a have "s = s0" by simp
      ultimately show ?thesis using lt write_raises(2) by simp
    next
      assume "\<exists>pre'. pre = (?line # replicate j ?F) @ CollectReceivedImageSet (1 / 10) (Inr (Some s0)) # pre'
          \<and> wevs = pre' @ ?C # post"
      then have "?C \<in> set wevs" by auto
      with w show ?thesis by auto
    qed
  next
    case (continue s0 rs' pevs wevs evs')
    from continue(1) obtain j where
      p: "pevs = replicate j ?F @ [CollectReceivedImageSet (1 / 10) (Inr (Some s0))]"
      by (rule receive_Normal)
    have w: "\<forall>ev \<in> set wevs. is_write ev" using continue(2) by (rule write_images_events)
    then have w': "\<forall>ev \<in> set wevs. \<not> is_received ev" by (simp add: not_received_write)
    have x: "\<forall>x \<in> set (?line # replicate j ?F). \<not> is_received x" by auto
    have h: "evs' = [] \<or> (\<exists>x evs0. evs' = Cout x # evs0)"
      using continue(3) by (rule receive_images_head)
    from continue(4) p Suc(4)
    have "(?line # replicate j ?F) @ CollectReceivedImageSet (1 / 10) (Inr (Some s0)) # (wevs @ evs')
        = pre @ ?C # post" by simp
    from first_split [of "?line # replicate j ?F" is_received, OF x rc this]
    show ?thesis
    proof
      assume a: "pre = ?line # replicate j ?F \<and> ?C = CollectReceivedImageSet (1 / 10) (Inr (Some s0))
        \<and> post = wevs @ evs'"
      then have "filter is_received pre = []" by auto
      moreover from a have "takeWhile is_write post = wevs"
        using takeWhile_writes [OF w h] by simp
      moreover from a have "s = s0" by simp
      ultimately show ?thesis using lt continue(2) by simp
    next
      assume "\<exists>pre'. pre = (?line # replicate j ?F) @ CollectReceivedImageSet (1 / 10) (Inr (Some s0)) # pre'
          \<and> wevs @ evs' = pre' @ ?C # post"
      then obtain pre' where
        a: "pre = (?line # replicate j ?F) @ CollectReceivedImageSet (1 / 10) (Inr (Some s0)) # pre'"
        and b: "wevs @ evs' = pre' @ ?C # post" by blast
      from skip_split [of wevs is_received, OF w' rc b] obtain pre'' where
        c: "pre' = wevs @ pre''" "evs' = pre'' @ ?C # post" by blast
      from Suc(2) have "k = nat (100 - (n + 1))" by simp
      from Suc(1) [OF this continue(3) c(2)]
      have ih: "n + 1 + int (length (filter is_received pre'')) < 100"
        "takeWhile is_write post = snd (write_images s (n + 1 + int (length (filter is_received pre''))) 0)"
        by simp_all
      from w have "filter is_received wevs = []" by (rule no_received_writes)
      with a c(1) have "int (length (filter is_received pre)) = 1 + int (length (filter is_received pre''))"
        by simp
      with ih show ?thesis by (simp add: add.assoc)
    qed
  qed
qed

lemma last_split:
  assumes "xs @ [z] = pre @ c # post" "c \<noteq> z"
  shows "\<exists>post'. post = post' @ [z] \<and> xs = pre @ c # post'"
proof (cases post rule: rev_cases)
  case Nil
  with assms show ?thesis by auto
next
  case (snoc post' y)
  with assms(1) have "xs @ [z] = (pre @ c # post') @ [y]" by simp
  then have "xs = pre @ c # post'" "z = y" by simp_all
  with snoc show ?thesis by simp
qed

lemma takeWhile_snoc_stop: "\<not> P z \<Longrightarrow> takeWhile P (xs @ [z]) = takeWhile P xs"
  by (induction xs) simp_all

lemma no_received_header: "\<forall>ev \<in> set (header ds r). \<not> is_received ev"
  by (auto simp: header_def)

lemma main_writes:
  assumes "snd (main w) = pre @ CollectReceivedImageSet t (Inr (Some s)) # post"
  shows "int (length (filter is_received pre)) < 100 \<and>
    takeWhile is_write post = snd (write_images s (int (length (filter is_received pre))) 0)"
proof (cases w rule: main_cases)
  case no_devices
  with assms have "CollectReceivedImageSet t (Inr (Some s)) \<in> set [DiscoverDevices None, Cout ''No devices discovered!'']"
    by (metis in_set_conv_decomp snd_conv)
  then show ?thesis by simp
next
  case (discover_raises e)
  let ?C = "CollectReceivedImageSet t (Inr (Some s))"
  from assms have "?C \<in> set (snd (main w))" by simp
  with discover_raises(2) show ?thesis by (cases e) simp_all
next
  case (transfer_raises ds e)
  let ?C = "CollectReceivedImageSet t (Inr (Some s))"
  from assms have "?C \<in> set (snd (main w))" by simp
  with transfer_raises(4) have "?C \<in> set (header ds (Some e))" by (cases e) simp_all
  with no_received_header [of ds "Some e"] show ?thesis by auto
next
  case (loop ds r evs)
  let ?C = "CollectReceivedImageSet t (Inr (Some s))"
  have rc: "is_received ?C" by simp
  have "\<exists>tail. snd (main w) = header ds None @ (evs @ tail) \<and> (tail = [] \<or> (\<exists>m. tail = [Cerr m]))"
  proof (cases r)
    case (Raise e)
    with loop(5) show ?thesis by (cases e) simp_all
  qed (use loop(5) in simp_all)
  then obtain tail where tr: "snd (main w) = header ds None @ (evs @ tail)"
    and tail: "tail = [] \<or> (\<exists>m. tail = [Cerr m])" by blast
  from tr assms have "header ds None @ (evs @ tail) = pre @ ?C # post" by simp
  from skip_split [of "header ds None" is_received, OF no_received_header rc this]
  obtain pre' where p: "pre = header ds None @ pre'" "evs @ tail = pre' @ ?C # post" by blast
  have "filter is_received (header ds None) = []"
    using no_received_header [of ds None] by (simp add: filter_empty_conv)
  with p(1) have cnt: "filter is_received pre = filter is_received pre'" by simp
  from tail show ?thesis
  proof
    assume "tail = []"
    with p(2) have "evs = pre' @ ?C # post" by simp
    from receive_images_writes [OF loop(4) this] cnt show ?thesis by simp
  next
    assume "\<exists>m. tail = [Cerr m]"
    then obtain m where m: "tail = [Cerr m]" by blast
    with p(2) have "evs @ [Cerr m] = pre' @ ?C # post" by simp
    from last_split [OF this] obtain post' where
      q: "post = post' @ [Cerr m]" "evs = pre' @ ?C # post'" by auto
    from q(1) have "takeWhile is_write post = takeWhile is_write post'"
      by (simp add: takeWhile_snoc_stop)
    with receive_images_writes [OF loop(4) q(2)] cnt show ?thesis by simp
  qed
qed

text \<open>
  Claim C6, amended. After every successful reception, where \<open>n\<close> sets were received
  before, the run continues with the calls of \<^verbatim>\<open>writePgmFile\<close> for the indices
  \<open>0, 1, ..., k - 1\<close> of the received set, in this order and one call for each index.
  All indices of the set are covered (\<open>k\<close> is the number of its images) unless the call
  for the index \<open>k - 1\<close> threw; no earlier call threw.
\<close>

theorem writes_of_received_set:
  assumes "snd (main w) = pre @ CollectReceivedImageSet t (Inr (Some s)) # post"
  shows "\<exists>k. 0 \<le> k \<and> k \<le> max 0 (getNumberOfImages s)
     \<and> takeWhile is_write post = map (write_call s (int (length (filter is_received pre)))) [0..k - 1]
     \<and> (\<forall>j. 0 \<le> j \<and> j < k - 1 \<longrightarrow>
          writePgmFile s j (pgm_name j (int (length (filter is_received pre)))) = None)
     \<and> (k < getNumberOfImages s \<longrightarrow>
          0 < k \<and> writePgmFile s (k - 1) (pgm_name (k - 1) (int (length (filter is_received pre)))) \<noteq> None)"
proof -
  let ?n = "int (length (filter is_received pre))"
  obtain r evs where e: "write_images s ?n 0 = (r, evs)" by (cases "write_images s ?n 0") auto
  from main_writes [OF assms] e have "takeWhile is_write post = evs" by simp
  with write_images_shape [OF e] show ?thesis by auto
qed

text \<open>
  Claim C1, amended. Let a set be received after \<open>n\<close> earlier sets, so that \<open>n\<close> is
  its set number, and let \<open>i\<close> be the index of one of its images (a 32-bit \<^verbatim>\<open>int\<close>)
  such that no write for a smaller index of the set threw. Then \<open>n < 100\<close> and the
  program calls \<^verbatim>\<open>writePgmFile\<close> for \<open>i\<close> with the name made of \<^verbatim>\<open>image\<close>, the
  sub-image index padded with zeros to three digits, an underscore, the set number in
  plain decimal, and \<^verbatim>\<open>.pgm\<close>.
\<close>

theorem file_name_of_write:
  assumes "snd (main w) = pre @ CollectReceivedImageSet t (Inr (Some s)) # post"
    and "n = int (length (filter is_received pre))"
    and "0 \<le> i" "i < getNumberOfImages s" "i < 2 ^ 31"
    and "\<forall>j. 0 \<le> j \<and> j < i \<longrightarrow> writePgmFile s j (pgm_name j n) = None"
  shows "n < 100 \<and>
    WritePgmFile i (''image'' @ conv_03d i @ ''_'' @ conv_d n @ ''.pgm'')
      (writePgmFile s i (''image'' @ conv_03d i @ ''_'' @ conv_d n @ ''.pgm''))
      \<in> set (takeWhile is_write post)"
proof -
  obtain r evs where e: "write_images s n 0 = (r, evs)" by (cases "write_images s n 0") auto
  from main_writes [OF assms(1)] assms(2) e
  have n: "n < 100" and tw: "takeWhile is_write post = evs" by simp_all
  from write_images_shape [OF e] obtain k where k:
    "evs = map (write_call s n) [0..k - 1]"
    "k < getNumberOfImages s \<longrightarrow> 0 < k \<and> writePgmFile s (k - 1) (pgm_name (k - 1) n) \<noteq> None"
    by blast
  have "i < k"
  proof (rule ccontr)
    assume "\<not> i < k"
    with assms(4) k(2) have "0 < k" "writePgmFile s (k - 1) (pgm_name (k - 1) n) \<noteq> None" by simp_all
    moreover from \<open>\<not> i < k\<close> \<open>0 < k\<close> assms(6) have "writePgmFile s (k - 1) (pgm_name (k - 1) n) = None"
      by simp
    ultimately show False by simp
  qed
  with assms(3) have "i \<in> set [0..k - 1]" by simp
  with k(1) tw have "write_call s n i \<in> set (takeWhile is_write post)" by simp
  moreover have "pgm_name i n = ''image'' @ conv_03d i @ ''_'' @ conv_d n @ ''.pgm''"
    using assms(2,3,5) n by (simp add: pgm_name_eq format_image_def)
  ultimately show ?thesis using n by (simp add: write_call_def)
qed

section \<open>The order of polls and writes\<close>



















section \<open>The polls and what the world delivers\<close>

lemma polled_append: "polled (xs @ ys) = polled xs @ polled ys"
  by (induction xs rule: polled.induct) simp_all

lemma received_in_append: "received_in (xs @ ys) = received_in xs @ received_in ys"
  by (induction xs rule: received_in.induct) simp_all

lemma polled_writes: "\<forall>ev \<in> set evs. is_write ev \<Longrightarrow> polled evs = []"
proof (induction evs)
  case Nil
  then show ?case by simp
next
  case (Cons ev evs)
  then show ?case by (cases ev) simp_all
qed

lemma received_in_writes: "\<forall>ev \<in> set evs. is_write ev \<Longrightarrow> received_in evs = []"
proof (induction evs)
  case Nil
  then show ?case by simp
next
  case (Cons ev evs)
  then show ?case by (cases ev) simp_all
qed

lemma polled_header: "polled (header ds r) = []"
proof -
  have "polled (map (\<lambda>d. Cout (toString d)) ds @ ys) = polled ys" for ys
    by (induction ds) simp_all
  then show ?thesis by (simp add: header_def)
qed

lemma received_in_header: "received_in (header ds r @ evs) = received_in evs"
proof -
  have "received_in (map (\<lambda>d. Cout (toString d)) ds @ ys) = received_in ys" for ys
    by (induction ds) simp_all
  then show ?thesis by (simp add: header_def)
qed

lemma polled_timeouts:
  "polled (replicate j (CollectReceivedImageSet (1 / 10) (Inr None))) = replicate j TimedOut"
  by (induction j) simp_all

lemma received_in_timeouts:
  "received_in (replicate j (CollectReceivedImageSet (1 / 10) (Inr None)) @ evs) = received_in evs"
  by (induction j) simp_all

lemma receive_consumes: "receive rs = (r, rs', pevs) \<Longrightarrow> rs = polled pevs @ rs'"
proof (induction rs arbitrary: r rs' pevs rule: receive.induct)
  case 1
  then show ?case by auto
next
  case (2 rs)
  obtain r0 rs0 evs0 where e: "receive rs = (r0, rs0, evs0)" by (cases "receive rs") auto
  from 2(1) [OF e] have "rs = polled evs0 @ rs0" .
  with 2(2) e show ?case by auto
next
  case (3 s rs)
  then show ?case by auto
next
  case (4 e rs)
  then show ?case by auto
qed

lemma receive_Blocked_rest: "receive rs = (Blocked, rs', pevs) \<Longrightarrow> rs' = []"
proof (induction rs arbitrary: rs' pevs rule: receive.induct)
  case (2 rs)
  obtain r0 rs0 evs0 where e: "receive rs = (r0, rs0, evs0)" by (cases "receive rs") auto
  with 2(2) have "r0 = Blocked" "rs0 = rs'" by auto
  with 2(1) e show ?case by simp
qed auto

lemma receive_delivered:
  "receive rs = (r, rs', pevs) \<Longrightarrow>
   delivered rs = (case r of Normal s \<Rightarrow> s # delivered rs' | Raise e \<Rightarrow> [] | Blocked \<Rightarrow> [])"
proof (induction rs arbitrary: r rs' pevs rule: receive.induct)
  case 1
  then show ?case by auto
next
  case (2 rs)
  obtain r0 rs0 evs0 where e: "receive rs = (r0, rs0, evs0)" by (cases "receive rs") auto
  from 2(1) [OF e] have "delivered rs =
    (case r0 of Normal s \<Rightarrow> s # delivered rs0 | Raise e \<Rightarrow> [] | Blocked \<Rightarrow> [])" .
  with 2(2) e show ?case by auto
next
  case (3 s rs)
  then show ?case by auto
next
  case (4 e rs)
  then show ?case by auto
qed

lemma consumes_receive_images:
  "receive_images rs n = (r, evs) \<Longrightarrow>
   \<exists>rest. rs = polled evs @ rest \<and> (r = Blocked \<longrightarrow> rest = [])"
proof (induction k \<equiv> "nat (100 - n)" arbitrary: n rs r evs)
  case 0
  then show ?case by (auto simp: receive_images_done)
next
  case (Suc k)
  then have lt: "n < 100" by simp
  from lt Suc(3) show ?case
  proof (cases rule: receive_images_cases)
    case (blocked rs' pevs)
    from receive_consumes [OF blocked(1)] receive_Blocked_rest [OF blocked(1)] blocked(2,3)
    show ?thesis by simp
  next
    case (receive_raises e rs' pevs)
    from receive_consumes [OF receive_raises(1)] receive_raises(2,3)
    show ?thesis by simp
  next
    case (write_raises s rs' pevs e wevs)
    have "polled wevs = []"
      using write_images_events [OF write_raises(2)] by (rule polled_writes)
    with receive_consumes [OF write_raises(1)] write_raises(3,4)
    show ?thesis by (simp add: polled_append)
  next
    case (continue s rs' pevs wevs evs')
    have w: "polled wevs = []"
      using write_images_events [OF continue(2)] by (rule polled_writes)
    from Suc(2) have "k = nat (100 - (n + 1))" by simp
    from Suc(1) [OF this continue(3)] obtain rest where
      "rs' = polled evs' @ rest" "r = Blocked \<longrightarrow> rest = []" by blast
    with receive_consumes [OF continue(1)] w continue(4)
    have "rs = polled evs @ rest \<and> (r = Blocked \<longrightarrow> rest = [])" by (simp add: polled_append)
    then show ?thesis by blast
  qed
qed





lemma main_polled:
  shows "\<exists>rest. collectReceivedImageSet w = polled (snd (main w)) @ rest"
    and "fst (main w) = PollsForever \<Longrightarrow> polled (snd (main w)) = collectReceivedImageSet w"
proof -
  have "(\<exists>rest. collectReceivedImageSet w = polled (snd (main w)) @ rest)
    \<and> (fst (main w) = PollsForever \<longrightarrow> polled (snd (main w)) = collectReceivedImageSet w)"
  proof (cases w rule: main_cases)
    case no_devices
    then show ?thesis by simp
  next
    case (discover_raises e)
    then show ?thesis by (cases e) simp_all
  next
    case (transfer_raises ds e)
    then show ?thesis by (cases e) (simp_all add: polled_append polled_header)
  next
    case (loop ds r evs)
    from consumes_receive_images [OF loop(4)] obtain rest where
      c: "collectReceivedImageSet w = polled evs @ rest" "r = Blocked \<longrightarrow> rest = []" by blast
    show ?thesis
    proof (cases r)
      case (Normal u)
      with loop(5) c show ?thesis by (simp add: polled_append polled_header)
    next
      case Blocked
      with loop(5) c show ?thesis by (simp add: polled_append polled_header)
    next
      case (Raise e)
      with loop(5) c show ?thesis by (cases e) (simp_all add: polled_append polled_header)
    qed
  qed
  then show "\<exists>rest. collectReceivedImageSet w = polled (snd (main w)) @ rest"
    and "fst (main w) = PollsForever \<Longrightarrow> polled (snd (main w)) = collectReceivedImageSet w"
    by simp_all
qed

lemma cout_shape: "is_cout a \<Longrightarrow> \<exists>x. a = Cout x"
  by (cases a) simp_all




lemma write_images_Normal_None:
  "write_images s n j = (Normal u, evs) \<Longrightarrow>
   \<forall>i. j \<le> i \<and> i < getNumberOfImages s \<longrightarrow> writePgmFile s i (pgm_name i n) = None"
proof (induction s n j arbitrary: evs rule: write_images.induct)
  case (1 s n j)
  show ?case
  proof (cases "j < getNumberOfImages s")
    case False
    then show ?thesis by auto
  next
    case True
    show ?thesis
    proof (cases "writePgmFile s j (pgm_name j n)")
      case (Some e)
      with True 1(2) show ?thesis by (simp add: write_images_step)
    next
      case None
      obtain r0 evs0 where e: "write_images s n (j + 1) = (r0, evs0)"
        by (cases "write_images s n (j + 1)") auto
      with True None 1(2) have "r0 = Normal u" by (simp add: write_images_step)
      with 1(1) [OF True None] e
      have ih: "\<forall>i. j + 1 \<le> i \<and> i < getNumberOfImages s \<longrightarrow>
        writePgmFile s i (pgm_name i n) = None" by simp
      show ?thesis
      proof (intro allI impI)
        fix i assume i: "j \<le> i \<and> i < getNumberOfImages s"
        show "writePgmFile s i (pgm_name i n) = None"
        proof (cases "i = j")
          case True
          with None show ?thesis by simp
        next
          case False
          with i ih show ?thesis by simp
        qed
      qed
    qed
  qed
qed

lemma receive_images_Normal_delivered:
  "receive_images rs n = (Normal u, evs) \<Longrightarrow> n \<le> 100 \<Longrightarrow>
   nat (100 - n) \<le> length (delivered rs) \<and>
   (\<forall>k < nat (100 - n). \<forall>i. 0 \<le> i \<and> i < getNumberOfImages (delivered rs ! k) \<longrightarrow>
      writePgmFile (delivered rs ! k) i (pgm_name i (n + int k)) = None)"
proof (induction k \<equiv> "nat (100 - n)" arbitrary: n rs evs)
  case 0
  then show ?case by simp
next
  case (Suc k)
  then have lt: "n < 100" by simp
  from lt Suc(3) show ?case
  proof (cases rule: receive_images_cases)
    case (continue s rs' pevs wevs evs')
    from receive_delivered [OF continue(1)] have d: "delivered rs = s # delivered rs'" by simp
    from write_images_Normal_None [OF continue(2)]
    have w: "\<forall>i. 0 \<le> i \<and> i < getNumberOfImages s \<longrightarrow> writePgmFile s i (pgm_name i n) = None" .
    from Suc(2) have k: "k = nat (100 - (n + 1))" by simp
    from Suc(1) [OF k continue(3)] lt have
      ih: "nat (100 - (n + 1)) \<le> length (delivered rs')"
      "\<forall>k < nat (100 - (n + 1)). \<forall>i. 0 \<le> i \<and> i < getNumberOfImages (delivered rs' ! k) \<longrightarrow>
          writePgmFile (delivered rs' ! k) i (pgm_name i (n + 1 + int k)) = None"
      by simp_all
    have a: "nat (100 - n) \<le> length (delivered rs)" using ih(1) d Suc(2) by simp
    have b: "\<forall>m < nat (100 - n). \<forall>i. 0 \<le> i \<and> i < getNumberOfImages (delivered rs ! m) \<longrightarrow>
      writePgmFile (delivered rs ! m) i (pgm_name i (n + int m)) = None"
    proof (intro allI impI)
      fix m i assume m: "m < nat (100 - n)"
        and i: "0 \<le> i \<and> i < getNumberOfImages (delivered rs ! m)"
      show "writePgmFile (delivered rs ! m) i (pgm_name i (n + int m)) = None"
      proof (cases m)
        case 0
        with d i w show ?thesis by simp
      next
        case (Suc m')
        with m Suc.hyps(2) have "m' < nat (100 - (n + 1))" by simp
        with ih(2) have "\<forall>i. 0 \<le> i \<and> i < getNumberOfImages (delivered rs' ! m') \<longrightarrow>
          writePgmFile (delivered rs' ! m') i (pgm_name i (n + 1 + int m')) = None" by blast
        moreover have "n + 1 + int m' = n + int (Suc m')" by simp
        ultimately show ?thesis using d i Suc by (simp add: add.assoc)
      qed
    qed
    from a b show ?thesis by blast
  qed simp_all
qed

text \<open>
  A run in which a device is discovered, no call throws and the polling does not go on
  for ever is possible only in a world that lets the transfer object be constructed,
  delivers at least 100 image sets before any throwing poll, and lets the writes of
  these sets succeed.
\<close>

lemma run_without_exception_delivers:
  assumes "discoverDevices w = Inr ds" "ds \<noteq> []"
    and "fst (main w) \<noteq> PollsForever"
    and "\<forall>ev \<in> set (snd (main w)). raised ev = None"
  shows "AsyncTransfer w (ds ! 0) = None"
    and "100 \<le> length (delivered (collectReceivedImageSet w))"
    and "\<forall>n < 100. \<forall>i.
           0 \<le> i \<and> i < getNumberOfImages (delivered (collectReceivedImageSet w) ! n) \<longrightarrow>
           writePgmFile (delivered (collectReceivedImageSet w) ! n) i (pgm_name i (int n)) = None"
proof -
  have "AsyncTransfer w (ds ! 0) = None
    \<and> 100 \<le> length (delivered (collectReceivedImageSet w))
    \<and> (\<forall>n < 100. \<forall>i.
           0 \<le> i \<and> i < getNumberOfImages (delivered (collectReceivedImageSet w) ! n) \<longrightarrow>
           writePgmFile (delivered (collectReceivedImageSet w) ! n) i (pgm_name i (int n)) = None)"
  proof (cases w rule: main_cases)
    case no_devices
    with assms(1,2) show ?thesis by simp
  next
    case (discover_raises e)
    with assms(1) show ?thesis by simp
  next
    case (transfer_raises ds' e)
    then have "NewAsyncTransfer (ds' ! 0) (Some e) \<in> set (snd (main w))"
      by (cases e) (simp_all add: header_def)
    with assms(4) show ?thesis by fastforce
  next
    case (loop ds' r evs)
    with assms(1) have ds: "ds' = ds" by simp
    show ?thesis
    proof (cases r)
      case (Normal u)
      with loop(4) have "receive_images (collectReceivedImageSet w) 0 = (Normal u, evs)" by simp
      from receive_images_Normal_delivered [OF this] loop(3) ds show ?thesis by simp
    next
      case Blocked
      with loop(5) assms(3) show ?thesis by simp
    next
      case (Raise e)
      from ends_as_receive_images [OF loop(4)] Raise
      have "\<exists>pre ev. evs = pre @ [ev] \<and> raised ev = Some e" by (auto simp: ends_as_Raise)
      then obtain pre ev where pe: "evs = pre @ [ev]" "raised ev = Some e" by blast
      then have "ev \<in> set evs" by simp
      moreover from Raise loop(5) have "set evs \<subseteq> set (snd (main w))" by (cases e) auto
      ultimately show ?thesis using assms(4) pe(2) by fastforce
    qed
  qed
  then show "AsyncTransfer w (ds ! 0) = None"
    and "100 \<le> length (delivered (collectReceivedImageSet w))"
    and "\<forall>n < 100. \<forall>i.
           0 \<le> i \<and> i < getNumberOfImages (delivered (collectReceivedImageSet w) ! n) \<longrightarrow>
           writePgmFile (delivered (collectReceivedImageSet w) ! n) i (pgm_name i (int n)) = None"
    by simp_all
qed

lemma write_images_ok:
  "\<forall>i. j \<le> i \<and> i < getNumberOfImages s \<longrightarrow> writePgmFile s i (pgm_name i n) = None \<Longrightarrow>
   fst (write_images s n j) = Normal ()"
proof (induction s n j rule: write_images.induct)
  case (1 s n j)
  show ?case
  proof (cases "j < getNumberOfImages s")
    case False
    then show ?thesis by (simp add: write_images_done)
  next
    case True
    with 1(2) have n: "writePgmFile s j (pgm_name j n) = None" by simp
    from 1(2) have "\<forall>i. j + 1 \<le> i \<and> i < getNumberOfImages s \<longrightarrow>
      writePgmFile s i (pgm_name i n) = None" by simp
    from 1(1) [OF True n this] have ih: "fst (write_images s n (j + 1)) = Normal ()" .
    obtain r0 evs0 where e: "write_images s n (j + 1) = (r0, evs0)"
      by (cases "write_images s n (j + 1)") auto
    with ih have "r0 = Normal ()" by simp
    with True n e show ?thesis by (simp add: write_images_step)
  qed
qed

lemma receive_images_delivered:
  assumes "nat (100 - n) \<le> length (delivered rs)"
    and "\<forall>k < nat (100 - n). \<forall>i. 0 \<le> i \<and> i < getNumberOfImages (delivered rs ! k) \<longrightarrow>
           writePgmFile (delivered rs ! k) i (pgm_name i (n + int k)) = None"
  shows "\<exists>evs. receive_images rs n = (Normal (), evs)
           \<and> received_in evs = take (nat (100 - n)) (delivered rs)"
  using assms
proof (induction k \<equiv> "nat (100 - n)" arbitrary: n rs)
  case 0
  then show ?case by (simp add: receive_images_done)
next
  case (Suc k)
  then have lt: "n < 100" by simp
  obtain r rs' pevs where rc: "receive rs = (r, rs', pevs)" by (cases "receive rs") auto
  from Suc(2,3) have ne: "delivered rs \<noteq> []" by auto
  with receive_delivered [OF rc] obtain s where r: "r = Normal s" by (cases r) auto
  with receive_delivered [OF rc] have d: "delivered rs = s # delivered rs'" by simp
  from rc r obtain j where
    p: "pevs = replicate j (CollectReceivedImageSet (1 / 10) (Inr None)) @
          [CollectReceivedImageSet (1 / 10) (Inr (Some s))]"
    using receive_Normal by blast
  from Suc(2) have k0: "0 < nat (100 - n)" by simp
  from Suc(4) k0 d have "\<forall>i. 0 \<le> i \<and> i < getNumberOfImages s \<longrightarrow>
      writePgmFile s i (pgm_name i n) = None" by force
  then have "fst (write_images s n 0) = Normal ()" by (rule write_images_ok)
  then obtain wevs where w: "write_images s n 0 = (Normal (), wevs)"
    by (cases "write_images s n 0") auto
  from Suc(2) have k: "k = nat (100 - (n + 1))" by simp
  from Suc(2,3) d have a: "nat (100 - (n + 1)) \<le> length (delivered rs')" by simp
  have b: "\<forall>k < nat (100 - (n + 1)). \<forall>i. 0 \<le> i \<and> i < getNumberOfImages (delivered rs' ! k) \<longrightarrow>
           writePgmFile (delivered rs' ! k) i (pgm_name i (n + 1 + int k)) = None"
  proof (intro allI impI)
    fix m i assume m: "m < nat (100 - (n + 1))"
      and i: "0 \<le> i \<and> i < getNumberOfImages (delivered rs' ! m)"
    from m Suc(2) have "Suc m < nat (100 - n)" by simp
    with Suc(4) have "\<forall>i. 0 \<le> i \<and> i < getNumberOfImages (delivered rs ! Suc m) \<longrightarrow>
           writePgmFile (delivered rs ! Suc m) i (pgm_name i (n + int (Suc m))) = None" by blast
    with d i have "writePgmFile (delivered rs' ! m) i (pgm_name i (n + int (Suc m))) = None" by simp
    moreover have "n + int (Suc m) = n + 1 + int m" by simp
    ultimately show "writePgmFile (delivered rs' ! m) i (pgm_name i (n + 1 + int m)) = None"
      by (simp add: add.assoc)
  qed
  from Suc(1) [OF k a b] obtain evs' where
    ih: "receive_images rs' (n + 1) = (Normal (), evs')"
    "received_in evs' = take (nat (100 - (n + 1))) (delivered rs')" by blast
  have "receive_images rs n =
      (Normal (), Cout (''Receiving image set '' @ conv_d n) # pevs @ wevs @ evs')"
    using lt rc r w ih(1) by (simp add: receive_images_step)
  moreover have "received_in (Cout (''Receiving image set '' @ conv_d n) # pevs @ wevs @ evs')
      = s # received_in evs'"
    using p received_in_writes [OF write_images_events [OF w]]
      received_in_timeouts [of j "[]"]
    by (simp add: received_in_append)
  moreover from Suc(2) have "nat (100 - n) = Suc (nat (100 - (n + 1)))" by simp
  ultimately show ?case using ih(2) d by simp
qed

text \<open>
  Claim C4. Let at least one device be discovered and the transfer object be
  constructed; let the world deliver at least 100 image sets before any call of
  \<^verbatim>\<open>collectReceivedImageSet\<close> throws, with any number of timeouts in between (every
  reception eventually succeeds), and let no write of these sets under the name of its
  index and set number throw. Then \<^verbatim>\<open>main\<close> returns \<open>0\<close> after exactly 100
  successful receptions, which store the first 100 sets the world delivers in their
  order; the loop announces the set numbers 0, 1, ..., 99 in this order and then stops.
  By the lemma before, these hypotheses on the world hold in every run with a device,
  without a throwing call and without endless polling.
\<close>

theorem receives_first_100_sets:
  assumes "discoverDevices w = Inr ds" "ds \<noteq> []" "AsyncTransfer w (ds ! 0) = None"
    and "100 \<le> length (delivered (collectReceivedImageSet w))"
    and "\<forall>n < 100. \<forall>i.
           0 \<le> i \<and> i < getNumberOfImages (delivered (collectReceivedImageSet w) ! n) \<longrightarrow>
           writePgmFile (delivered (collectReceivedImageSet w) ! n) i (pgm_name i (int n)) = None"
  shows "fst (main w) = Returned 0 \<and>
    (\<exists>evs. snd (main w) = header ds None @ evs
       \<and> received_in evs = take 100 (delivered (collectReceivedImageSet w))
       \<and> length (filter is_received evs) = 100
       \<and> couts evs = map (\<lambda>n. ''Receiving image set '' @ conv_d n) [0..99])"
proof -
  let ?rs = "collectReceivedImageSet w"
  have a: "nat (100 - 0) \<le> length (delivered ?rs)" using assms(4) by simp
  have b: "\<forall>k < nat (100 - 0). \<forall>i. 0 \<le> i \<and> i < getNumberOfImages (delivered ?rs ! k) \<longrightarrow>
           writePgmFile (delivered ?rs ! k) i (pgm_name i (0 + int k)) = None"
    using assms(5) by simp
  from receive_images_delivered [OF a b] obtain evs where
    l: "receive_images ?rs 0 = (Normal (), evs)"
    and r: "received_in evs = take 100 (delivered ?rs)" by auto
  from receive_images_Normal [OF l] have
    c: "length (filter is_received evs) = 100"
    "couts evs = map (\<lambda>n. ''Receiving image set '' @ conv_d n) [0..99]" by simp_all
  from try_block_loop [OF assms(1-3) l] have "main w = (Returned 0, header ds None @ evs)"
    by (simp add: main_try_block)
  with r c show ?thesis by simp
qed

text \<open>
  Claim C2, amended. \<^verbatim>\<open>main\<close> returns \<open>-1\<close> exactly when the enumeration delivers
  an empty device list, and then the message is on standard output. In every other run
  that terminates and in which no call throws an object that is not a
  \<^verbatim>\<open>std::exception\<close>, it returns \<open>0\<close>; so it does in particular whenever the
  handler has caught an exception and printed its message. A run in which such a foreign
  object is thrown ends with that exception leaving \<^verbatim>\<open>main\<close>, and a run does not
  terminate only when the polls have used up everything the world delivers.
\<close>

theorem exit_code_of_main:
  "(fst (main w) = Returned (- 1) \<longleftrightarrow> discoverDevices w = Inr [])
   \<and> (discoverDevices w = Inr [] \<longrightarrow> Cout ''No devices discovered!'' \<in> set (snd (main w)))
   \<and> (discoverDevices w \<noteq> Inr [] \<and> fst (main w) \<noteq> PollsForever
        \<and> (\<forall>ev \<in> set (snd (main w)). raised ev \<noteq> Some OtherException)
        \<longrightarrow> fst (main w) = Returned 0)
   \<and> ((\<exists>m. Cerr m \<in> set (snd (main w))) \<longrightarrow> fst (main w) = Returned 0)
   \<and> ((\<exists>ev \<in> set (snd (main w)). raised ev = Some OtherException)
        \<longrightarrow> fst (main w) = Uncaught OtherException)
   \<and> (fst (main w) = PollsForever \<longrightarrow> polled (snd (main w)) = collectReceivedImageSet w)"
proof (cases w rule: main_cases)
  case no_devices
  then show ?thesis by simp
next
  case (discover_raises e)
  then show ?thesis by (cases e) simp_all
next
  case (transfer_raises ds e)
  have c: "Cerr m \<notin> set (header ds (Some e))" for m
    using no_cerr_header [of ds "Some e"] by fastforce
  have h: "\<forall>ev \<in> set (header ds (Some e)). raised ev = Some OtherException \<longrightarrow> e = OtherException"
    by (auto simp: header_def)
  have i: "NewAsyncTransfer (ds ! 0) (Some e) \<in> set (header ds (Some e))"
    by (simp add: header_def)
  show ?thesis
  proof (cases e)
    case (StdException m)
    with transfer_raises c h show ?thesis by auto
  next
    case OtherException
    with transfer_raises c i show ?thesis by force
  qed
next
  case (loop ds r evs)
  have a: "Cerr m \<notin> set evs" for m
    using no_cerr_receive_images [OF loop(4)] by fastforce
  have b: "Cerr m \<notin> set (header ds None)" for m
    using no_cerr_header [of ds None] by fastforce
  have q: "\<forall>ev \<in> set (header ds None). raised ev = None" by (auto simp: header_def)
  note e = ends_as_receive_images [OF loop(4)]
  note p = main_polled(2) [of w]
  show ?thesis
  proof (cases r)
    case (Normal u)
    with e have "\<forall>ev \<in> set evs. raised ev = None" by (simp add: ends_as_Normal)
    with Normal loop a b q p show ?thesis by auto
  next
    case Blocked
    with e have "\<forall>ev \<in> set evs. raised ev = None" by (simp add: ends_as_Blocked)
    with Blocked loop a b q p show ?thesis by auto
  next
    case (Raise x)
    with e obtain pre ev where
      pe: "evs = pre @ [ev]" "raised ev = Some x" "\<forall>y \<in> set pre. raised y = None"
      by (auto simp: ends_as_Raise)
    show ?thesis
    proof (cases x)
      case (StdException m)
      with Raise loop(5) have m: "main w =
        (Returned 0, header ds None @ evs @ [Cerr (''Exception occurred: '' @ m)])" by simp
      have "\<forall>y \<in> set (snd (main w)). raised y \<noteq> Some OtherException"
        unfolding m using q pe StdException by auto
      with m loop(1,2) show ?thesis by auto
    next
      case OtherException
      with Raise loop(5) have m: "main w = (Uncaught OtherException, header ds None @ evs)"
        by simp
      have "ev \<in> set (snd (main w))" unfolding m using pe(1) by simp
      with pe(2) OtherException have "\<exists>y \<in> set (snd (main w)). raised y = Some OtherException"
        by blast
      moreover have "Cerr c \<notin> set (snd (main w))" for c unfolding m using a b by simp
      ultimately show ?thesis using m loop(1,2) by auto
    qed
  qed
qed

section \<open>Concrete runs\<close>

lemma failing_write_trace: "main failing_write_world =
  (Returned 0,
   [DiscoverDevices None, Cout ''Discovered devices:'', Cout ''192.168.10.10'', Cout [],
    NewAsyncTransfer (DeviceInfo ''192.168.10.10'') None,
    Cout ''Receiving image set 0'',
    CollectReceivedImageSet (1 / 10) (Inr None),
    CollectReceivedImageSet (1 / 10) (Inr (Some second_write_fails)),
    WritePgmFile 0 ''image000_0.pgm'' None,
    WritePgmFile 1 ''image001_0.pgm'' (Some (StdException ''Illegal pixel format!'')),
    Cerr ''Exception occurred: Illegal pixel format!''])"
  by (simp add: failing_write_world_def second_write_fails_def run_eval)

lemma two_sets_trace: "main two_sets_world =
  (PollsForever,
   [DiscoverDevices None, Cout ''Discovered devices:'', Cout ''192.168.10.10'', Cout [],
    NewAsyncTransfer (DeviceInfo ''192.168.10.10'') None,
    Cout ''Receiving image set 0'',
    CollectReceivedImageSet (1 / 10) (Inr (Some one_image)),
    WritePgmFile 0 ''image000_0.pgm'' None,
    Cout ''Receiving image set 1'',
    CollectReceivedImageSet (1 / 10) (Inr (Some one_image)),
    WritePgmFile 0 ''image000_1.pgm'' None,
    Cout ''Receiving image set 2''])"
  by (simp add: two_sets_world_def one_image_def run_eval)

text \<open>The run without devices, although a set would be ready for reception.\<close>

theorem main_no_devices_witness:
  "discoverDevices no_devices_world = Inr []
   \<and> main no_devices_world =
       (Returned (- 1), [DiscoverDevices None, Cout ''No devices discovered!''])"
proof -
  have d: "discoverDevices no_devices_world = Inr []" by (simp add: no_devices_world_def)
  from main_no_devices [OF d] d show ?thesis by simp
qed

text \<open>
  Claim C3 as stated fails: when the enumeration throws an object that is not a
  \<^verbatim>\<open>std::exception\<close>, the handler does not apply; nothing is printed and the
  exception leaves \<^verbatim>\<open>main\<close>.
\<close>

theorem other_exception_not_caught:
  "main foreign_exception_world =
     (Uncaught OtherException, [DiscoverDevices (Some OtherException)])"
  by (simp add: foreign_exception_world_def run_eval)

text \<open>The exception thrown when the second image of a set is written is caught.\<close>

theorem main_catches_std_exception_witness:
  "WritePgmFile 1 ''image001_0.pgm'' (Some (StdException ''Illegal pixel format!''))
     \<in> set (snd (main failing_write_world))
   \<and> fst (main failing_write_world) = Returned 0
   \<and> (\<exists>pre. snd (main failing_write_world) =
         pre @ [WritePgmFile 1 ''image001_0.pgm'' (Some (StdException ''Illegal pixel format!'')),
                Cerr ''Exception occurred: Illegal pixel format!''])"
proof -
  let ?ev = "WritePgmFile 1 ''image001_0.pgm'' (Some (StdException ''Illegal pixel format!''))"
  have a: "?ev \<in> set (snd (main failing_write_world))" by (simp add: failing_write_trace)
  have b: "raised ?ev = Some (StdException ''Illegal pixel format!'')" by simp
  from main_catches_std_exception [OF a b] a show ?thesis by auto
qed

lemma one_set_trace: "main one_set_world =
  (PollsForever,
   [DiscoverDevices None, Cout ''Discovered devices:'', Cout ''192.168.10.10'', Cout [],
    NewAsyncTransfer (DeviceInfo ''192.168.10.10'') None,
    Cout ''Receiving image set 0'',
    CollectReceivedImageSet (1 / 10) (Inr (Some two_images)),
    WritePgmFile 0 ''image000_0.pgm'' None,
    WritePgmFile 1 ''image001_0.pgm'' None,
    Cout ''Receiving image set 1''])"
  by (simp add: one_set_world_def two_images_def run_eval)

text \<open>
  Claim C1 as stated fails: for the set number 1 and the sub-image index 0 the claim
  names the file \<^verbatim>\<open>image001_0.pgm\<close>. In the run below the sets 0 and 1 are received,
  each with one image; the file written for the set 1 is \<^verbatim>\<open>image000_1.pgm\<close>, and no
  file \<^verbatim>\<open>image001_0.pgm\<close> is written at all.
\<close>

theorem claimed_name_not_written:
  "main two_sets_world =
    (PollsForever,
     [DiscoverDevices None, Cout ''Discovered devices:'', Cout ''192.168.10.10'', Cout [],
      NewAsyncTransfer (DeviceInfo ''192.168.10.10'') None,
      Cout ''Receiving image set 0'',
      CollectReceivedImageSet (1 / 10) (Inr (Some one_image)),
      WritePgmFile 0 ''image000_0.pgm'' None,
      Cout ''Receiving image set 1'',
      CollectReceivedImageSet (1 / 10) (Inr (Some one_image)),
      WritePgmFile 0 ''image000_1.pgm'' None,
      Cout ''Receiving image set 2''])
   \<and> written_names (snd (main two_sets_world)) = [''image000_0.pgm'', ''image000_1.pgm'']
   \<and> ''image001_0.pgm'' \<notin> set (written_names (snd (main two_sets_world)))"
  by (simp add: two_sets_trace)

text \<open>The second set of the same run: its only image is written to \<^verbatim>\<open>image000_1.pgm\<close>.\<close>

theorem file_name_of_write_witness:
  "snd (main two_sets_world) =
     [DiscoverDevices None, Cout ''Discovered devices:'', Cout ''192.168.10.10'', Cout [],
      NewAsyncTransfer (DeviceInfo ''192.168.10.10'') None,
      Cout ''Receiving image set 0'',
      CollectReceivedImageSet (1 / 10) (Inr (Some one_image)),
      WritePgmFile 0 ''image000_0.pgm'' None,
      Cout ''Receiving image set 1'']
     @ CollectReceivedImageSet (1 / 10) (Inr (Some one_image))
     # [WritePgmFile 0 ''image000_1.pgm'' None, Cout ''Receiving image set 2'']
   \<and> WritePgmFile 0 ''image000_1.pgm'' None
       \<in> set (takeWhile is_write [WritePgmFile 0 ''image000_1.pgm'' None, Cout ''Receiving image set 2''])"
proof -
  let ?pre = "[DiscoverDevices None, Cout ''Discovered devices:'', Cout ''192.168.10.10'', Cout [],
      NewAsyncTransfer (DeviceInfo ''192.168.10.10'') None,
      Cout ''Receiving image set 0'',
      CollectReceivedImageSet (1 / 10) (Inr (Some one_image)),
      WritePgmFile 0 ''image000_0.pgm'' None,
      Cout ''Receiving image set 1'']"
  let ?post = "[WritePgmFile 0 ''image000_1.pgm'' None, Cout ''Receiving image set 2'']"
  have a: "snd (main two_sets_world) =
      ?pre @ CollectReceivedImageSet (1 / 10) (Inr (Some one_image)) # ?post"
    by (simp add: two_sets_trace)
  have n: "(1::int) = int (length (filter is_received ?pre))" by simp
  have i: "(0::int) < getNumberOfImages one_image" by (simp add: one_image_def)
  have q: "\<forall>j. (0::int) \<le> j \<and> j < 0 \<longrightarrow> writePgmFile one_image j (pgm_name j 1) = None"
    by (simp add: one_image_def)
  have e: "''image'' @ conv_03d 0 @ ''_'' @ conv_d 1 @ ''.pgm'' = ''image000_1.pgm''"
    by (simp add: name_eval)
  have w: "writePgmFile one_image 0 ''image000_1.pgm'' = None" by (simp add: one_image_def)
  from file_name_of_write [OF a n _ i _ q]
  have "WritePgmFile 0 (''image'' @ conv_03d 0 @ ''_'' @ conv_d 1 @ ''.pgm'')
      (writePgmFile one_image 0 (''image'' @ conv_03d 0 @ ''_'' @ conv_d 1 @ ''.pgm''))
      \<in> set (takeWhile is_write ?post)" by simp
  then have "WritePgmFile 0 ''image000_1.pgm'' None \<in> set (takeWhile is_write ?post)"
    unfolding e w .
  with a show ?thesis by blast
qed

text \<open>
  Claim C6 as stated fails: the set received below has two images, the call of
  \<^verbatim>\<open>writePgmFile\<close> for the index 0 throws, and no call for the index 1 is made.
\<close>

theorem write_skipped_after_exception:
  "getNumberOfImages first_write_fails = 2
   \<and> main first_write_fails_world =
      (Returned 0,
       [DiscoverDevices None, Cout ''Discovered devices:'', Cout ''192.168.10.10'', Cout [],
        NewAsyncTransfer (DeviceInfo ''192.168.10.10'') None,
        Cout ''Receiving image set 0'',
        CollectReceivedImageSet (1 / 10) (Inr (Some first_write_fails)),
        WritePgmFile 0 ''image000_0.pgm'' (Some (StdException ''Illegal pixel format!'')),
        Cerr ''Exception occurred: Illegal pixel format!''])"
  by (simp add: first_write_fails_world_def first_write_fails_def run_eval)

text \<open>A set of two images whose writes succeed: exactly the calls for the indices 0 and 1.\<close>

theorem writes_of_received_set_witness:
  "snd (main one_set_world) =
     [DiscoverDevices None, Cout ''Discovered devices:'', Cout ''192.168.10.10'', Cout [],
      NewAsyncTransfer (DeviceInfo ''192.168.10.10'') None,
      Cout ''Receiving image set 0'']
     @ CollectReceivedImageSet (1 / 10) (Inr (Some two_images))
     # [WritePgmFile 0 ''image000_0.pgm'' None, WritePgmFile 1 ''image001_0.pgm'' None,
        Cout ''Receiving image set 1'']
   \<and> takeWhile is_write
        [WritePgmFile 0 ''image000_0.pgm'' None, WritePgmFile 1 ''image001_0.pgm'' None,
         Cout ''Receiving image set 1'']
       = map (write_call two_images 0) [0..1]"
proof -
  let ?pre = "[DiscoverDevices None, Cout ''Discovered devices:'', Cout ''192.168.10.10'', Cout [],
      NewAsyncTransfer (DeviceInfo ''192.168.10.10'') None,
      Cout ''Receiving image set 0'']"
  let ?post = "[WritePgmFile 0 ''image000_0.pgm'' None, WritePgmFile 1 ''image001_0.pgm'' None,
        Cout ''Receiving image set 1'']"
  have a: "snd (main one_set_world) =
      ?pre @ CollectReceivedImageSet (1 / 10) (Inr (Some two_images)) # ?post"
    by (simp add: one_set_trace)
  have n: "int (length (filter is_received ?pre)) = 0" by simp
  from writes_of_received_set [OF a] obtain k where k:
    "0 \<le> k" "k \<le> max 0 (getNumberOfImages two_images)"
    "takeWhile is_write ?post = map (write_call two_images 0) [0..k - 1]"
    "k < getNumberOfImages two_images \<longrightarrow>
       0 < k \<and> writePgmFile two_images (k - 1) (pgm_name (k - 1) 0) \<noteq> None"
    unfolding n by blast
  from k(4) have "\<not> k < 2" by (auto simp: two_images_def)
  with k(2) have "k = 2" by (simp add: two_images_def)
  with k(3) have "takeWhile is_write ?post = map (write_call two_images 0) [0..1]" by simp
  with a show ?thesis by blast
qed

lemma delivered_retried:
  "delivered (concat (replicate k [TimedOut, Received s])) = replicate k s"
  by (induction k) simp_all

lemma retry_trace: "main retry_world =
  (PollsForever,
   [DiscoverDevices None, Cout ''Discovered devices:'', Cout ''192.168.10.10'', Cout [],
    NewAsyncTransfer (DeviceInfo ''192.168.10.10'') None,
    Cout ''Receiving image set 0'',
    CollectReceivedImageSet (1 / 10) (Inr None),
    CollectReceivedImageSet (1 / 10) (Inr (Some one_image)),
    WritePgmFile 0 ''image000_0.pgm'' None,
    Cout ''Receiving image set 1'',
    CollectReceivedImageSet (1 / 10) (Inr (Some one_image)),
    WritePgmFile 0 ''image000_1.pgm'' None,
    Cout ''Receiving image set 2''])"
  by (simp add: retry_world_def one_image_def run_eval)

text \<open>
  Claim C2 as stated fails: in the run below a device is discovered and the first poll
  throws an object that is not a \<^verbatim>\<open>std::exception\<close>. The run terminates, but
  \<^verbatim>\<open>main\<close> returns neither \<open>0\<close> nor \<open>-1\<close>: the exception leaves it.
\<close>

theorem foreign_exception_no_exit_code:
  "discoverDevices foreign_reception_world = Inr [DeviceInfo ''192.168.10.10'']
   \<and> main foreign_reception_world =
      (Uncaught OtherException,
       [DiscoverDevices None, Cout ''Discovered devices:'', Cout ''192.168.10.10'', Cout [],
        NewAsyncTransfer (DeviceInfo ''192.168.10.10'') None,
        Cout ''Receiving image set 0'',
        CollectReceivedImageSet (1 / 10) (Inl OtherException)])
   \<and> fst (main foreign_reception_world) \<noteq> PollsForever
   \<and> fst (main foreign_reception_world) \<noteq> Returned 0
   \<and> fst (main foreign_reception_world) \<noteq> Returned (- 1)"
  by (simp add: foreign_reception_world_def run_eval)

text \<open>
  The outcomes of four runs: without devices; with a write that throws a
  \<^verbatim>\<open>std::exception\<close>; with an enumeration that throws a foreign object; and with
  two sets after which the world delivers nothing more.
\<close>

theorem exit_code_of_main_witness:
  "discoverDevices no_devices_world = Inr []
   \<and> fst (main no_devices_world) = Returned (- 1)
   \<and> Cout ''No devices discovered!'' \<in> set (snd (main no_devices_world))
   \<and> discoverDevices failing_write_world \<noteq> Inr []
   \<and> fst (main failing_write_world) \<noteq> PollsForever
   \<and> Cerr ''Exception occurred: Illegal pixel format!'' \<in> set (snd (main failing_write_world))
   \<and> fst (main failing_write_world) = Returned 0
   \<and> fst (main foreign_exception_world) = Uncaught OtherException
   \<and> fst (main retry_world) = PollsForever
   \<and> polled (snd (main retry_world)) = [TimedOut, Received one_image, Received one_image]"
proof -
  have d: "discoverDevices no_devices_world = Inr []" by (simp add: no_devices_world_def)
  have e: "discoverDevices failing_write_world \<noteq> Inr []" by (simp add: failing_write_world_def)
  have t: "fst (main failing_write_world) \<noteq> PollsForever" by (simp add: failing_write_trace)
  have q: "\<forall>ev \<in> set (snd (main failing_write_world)). raised ev \<noteq> Some OtherException"
    by (simp add: failing_write_trace)
  have c: "Cerr ''Exception occurred: Illegal pixel format!'' \<in> set (snd (main failing_write_world))"
    by (simp add: failing_write_trace)
  have f: "\<exists>ev \<in> set (snd (main foreign_exception_world)). raised ev = Some OtherException"
    by (simp add: foreign_exception_world_def run_eval)
  have p: "fst (main retry_world) = PollsForever" by (simp add: retry_trace)
  from exit_code_of_main [of no_devices_world] d
  have 1: "fst (main no_devices_world) = Returned (- 1)"
    "Cout ''No devices discovered!'' \<in> set (snd (main no_devices_world))" by simp_all
  from exit_code_of_main [of failing_write_world] e t q
  have 2: "fst (main failing_write_world) = Returned 0" by blast
  from exit_code_of_main [of foreign_exception_world] f
  have 3: "fst (main foreign_exception_world) = Uncaught OtherException" by blast
  from exit_code_of_main [of retry_world] p
  have "polled (snd (main retry_world)) = collectReceivedImageSet retry_world" by blast
  then have 4: "polled (snd (main retry_world)) = [TimedOut, Received one_image, Received one_image]"
    by (simp add: retry_world_def)
  from d e t c p 1 2 3 4 show ?thesis by blast
qed

text \<open>
  A complete run: a hundred sets arrive, each one only at the second poll.
\<close>

theorem receives_first_100_sets_witness:
  "discoverDevices hundred_retried_sets_world = Inr [DeviceInfo ''192.168.10.10'']
   \<and> delivered (collectReceivedImageSet hundred_retried_sets_world) = replicate 100 two_images
   \<and> fst (main hundred_retried_sets_world) = Returned 0
   \<and> (\<exists>evs. snd (main hundred_retried_sets_world) = header [DeviceInfo ''192.168.10.10''] None @ evs
        \<and> received_in evs = replicate 100 two_images
        \<and> length (filter is_received evs) = 100
        \<and> couts evs = map (\<lambda>n. ''Receiving image set '' @ conv_d n) [0..99])"
proof -
  let ?w = hundred_retried_sets_world
  let ?ds = "[DeviceInfo ''192.168.10.10'']"
  have d: "discoverDevices ?w = Inr ?ds" by (simp add: hundred_retried_sets_world_def)
  have t: "AsyncTransfer ?w (?ds ! 0) = None" by (simp add: hundred_retried_sets_world_def)
  have s: "delivered (collectReceivedImageSet ?w) = replicate 100 two_images"
    by (simp add: hundred_retried_sets_world_def delivered_retried)
  have l: "100 \<le> length (delivered (collectReceivedImageSet ?w))" unfolding s by simp
  have q: "\<forall>n < 100. \<forall>i.
           0 \<le> i \<and> i < getNumberOfImages (delivered (collectReceivedImageSet ?w) ! n) \<longrightarrow>
           writePgmFile (delivered (collectReceivedImageSet ?w) ! n) i (pgm_name i (int n)) = None"
    unfolding s by (simp add: two_images_def)
  from receives_first_100_sets [OF d _ t l q] s d show ?thesis by simp
qed


end
